theory Spec2Isabelle
  imports Complex_Main "HOL-Library.Sublist" "HOL-Library.AList" "HOL-Library.Log_Nat"
begin

section \<open>Strings and regular expressions of the host language\<close>

text \<open>
  Header keys and cell texts are modelled as \<^typ>\<open>string\<close>, a list of 8-bit characters.
  \<open>toLowerCase\<close> lowers the ASCII letters and leaves every other character alone, and
  the white space that \<open>trim\<close> removes is the ASCII white space: texts are ASCII texts.
\<close>

definition lowerChar :: "char \<Rightarrow> char" where
  "lowerChar c =
     (case map_of (zip ''ABCDEFGHIJKLMNOPQRSTUVWXYZ'' ''abcdefghijklmnopqrstuvwxyz'') c of
        Some l \<Rightarrow> l
      | None \<Rightarrow> c)"

definition toLowerCase :: "string \<Rightarrow> string" where
  "toLowerCase s = map lowerChar s"

text \<open>
  Every regular expression of \<open>similarityScore\<close> is an alternation of lower-case literal
  words with the flag \<open>i\<close> and without the flag \<open>g\<close>: \<open>pat.test(s)\<close> holds iff one of the
  words occurs in \<open>s\<close> as a contiguous substring, letter case ignored. A pattern is the list
  of its words.
\<close>

definition regex_test :: "string list \<Rightarrow> string \<Rightarrow> bool" where
  "regex_test pat s = (\<exists>w \<in> set pat. sublist w (toLowerCase s))"

section \<open>Header similarity: \<open>similarityScore\<close> (services/geminiService.ts)\<close>

definition pat_name :: "string list" where
  "pat_name = [''product'', ''name'', ''desc'', ''item'', ''title'', ''artikel'', ''produk'']"

definition pat_cost :: "string list" where
  "pat_cost = [''cost'', ''dealer'', ''net'', ''wholesale'', ''modal'']"

definition pat_srp :: "string list" where
  "pat_srp = [''srp'', ''msrp'', ''retail'', ''list'', ''suggested'', ''base'']"

definition pat_price :: "string list" where
  "pat_price = [''price'', ''harga'', ''nilai'', ''rate'']"

definition pat_brand :: "string list" where
  "pat_brand = [''brand'', ''merk'', ''merek'', ''supplier'', ''vendor'', ''pabrik'']"

definition pat_code :: "string list" where
  "pat_code = [''code'', ''sku'', ''id'', ''nomor'', ''no'', ''kode'']"

definition pat_qty :: "string list" where
  "pat_qty = [''qty'', ''quantity'', ''jumlah'', ''stok'', ''stock'']"

definition patterns :: "(string \<times> string list) list" where
  "patterns =
     [(''name'', pat_name), (''cost'', pat_cost), (''srp'', pat_srp), (''price'', pat_price),
      (''brand'', pat_brand), (''code'', pat_code), (''qty'', pat_qty)]"

text \<open>The categories a header matches:
  \<open>Object.entries(patterns).filter(([_, pat]) => pat.test(a)).map(([k]) => k)\<close>.\<close>

definition matchedPatterns :: "string \<Rightarrow> string list" where
  "matchedPatterns a = map fst (filter (\<lambda>(k, pat). regex_test pat a) patterns)"

text \<open>The final loop counts the positions below \<open>minLen\<close> at which the two lower-cased
  strings carry the same character. A score is a rational: 1, 0.2 and 0.9 are the constants of
  the program, and the quotient of the last branch is only ever compared with 0.75.\<close>

definition countMatches :: "string \<Rightarrow> string \<Rightarrow> nat \<Rightarrow> nat" where
  "countMatches aLower bLower minLen =
     length (filter (\<lambda>i. aLower ! i = bLower ! i) [0..<minLen])"

definition similarityScore :: "string \<Rightarrow> string \<Rightarrow> rat" where
  "similarityScore a b =
     (let aLower = toLowerCase a;
          bLower = toLowerCase b
      in if aLower = bLower then 1
         else
           let aPatterns = matchedPatterns a;
               bPatterns = matchedPatterns b;
               aCost = regex_test pat_cost a;
               bCost = regex_test pat_cost b;
               aSrp = regex_test pat_srp a;
               bSrp = regex_test pat_srp b
           in if (aCost \<and> bSrp) \<or> (aSrp \<and> bCost) then 2 / 10
              else
                let overlap = length (filter (\<lambda>p. p \<in> set bPatterns) aPatterns)
                in if overlap > 0 then 9 / 10
                   else
                     let minLen = min (length aLower) (length bLower);
                         maxLen = max (length aLower) (length bLower);
                         matches = countMatches aLower bLower minLen
                     in of_nat matches / of_nat maxLen)"

section \<open>Cells, rows and the mapping (types.ts)\<close>

text \<open>
  A number of the host language is a finite value or one of the three non-finite values.
  Finite values are modelled by the rational they denote; the program only compares them
  with zero and hands them on.
\<close>

datatype jsnum = Fin rat | NaN | PosInf | NegInf

text \<open>
  A cell of a \<open>RawExtractionItem\<close> is a string or a number. \<open>Num n t\<close> is the number \<open>n\<close>
  together with \<open>t\<close>, the text that \<open>String(n)\<close> yields for it. A row is the list of its own
  properties in the order in which \<open>Object.keys\<close> enumerates them; reading a missing key yields
  \<open>undefined\<close>, here \<open>None\<close>. A row that the program builds enumerates its keys in the
  order of their insertion.
\<close>

datatype cell = Str string | Num jsnum string

type_synonym RawExtractionItem = "(string \<times> cell) list"

fun String :: "cell \<Rightarrow> string" where
  "String (Str s) = s"
| "String (Num n t) = t"

text \<open>Truthiness, \<open>x || 0\<close>, \<open>x > 0\<close> and \<open>x <= 0\<close> on numbers (every comparison with
  \<open>NaN\<close> is false).\<close>

fun falsy :: "jsnum \<Rightarrow> bool" where
  "falsy (Fin q) = (q = 0)"
| "falsy NaN = True"
| "falsy PosInf = False"
| "falsy NegInf = False"

fun orZero :: "jsnum option \<Rightarrow> jsnum" where
  "orZero None = Fin 0"
| "orZero (Some n) = (if falsy n then Fin 0 else n)"

fun gt0 :: "jsnum \<Rightarrow> bool" where
  "gt0 (Fin q) = (0 < q)"
| "gt0 NaN = False"
| "gt0 PosInf = True"
| "gt0 NegInf = False"

fun le0 :: "jsnum \<Rightarrow> bool" where
  "le0 (Fin q) = (q \<le> 0)"
| "le0 NaN = False"
| "le0 PosInf = False"
| "le0 NegInf = True"

record ManualRetag =
  name :: "string option"
  costPrice :: "jsnum option"
  srpPrice :: "jsnum option"

record ColumnMapping =
  nameField :: string
  costField :: string
  srpField :: "string option"
  brandName :: string
  nameFallbackFields :: "string list option"
  costFallbackFields :: "string list option"
  srpFallbackFields :: "string list option"
  manualRetagByRow :: "(nat \<rightharpoonup> ManualRetag) option"

section \<open>Text and price normalisation (components/MappingModal.tsx)\<close>

definition isSpace :: "char \<Rightarrow> bool" where
  "isSpace c = (c \<in> set [CHR '' '', CHR 0x09, CHR 0x0A, CHR 0x0B, CHR 0x0C, CHR 0x0D])"

definition trim :: "string \<Rightarrow> string" where
  "trim s = rev (dropWhile isSpace (rev (dropWhile isSpace s)))"

definition placeholders :: "string list" where
  "placeholders = [''undefined'', ''null'', ''n/a'', ''na'', ''-'']"

definition normalizeText :: "cell option \<Rightarrow> string" where
  "normalizeText val =
     (case val of
        None \<Rightarrow> []
      | Some v \<Rightarrow>
          let text = trim (String v)
          in if text = [] then []
             else if toLowerCase text \<in> set placeholders then []
             else text)"

definition isDigit :: "char \<Rightarrow> bool" where
  "isDigit c = (c \<in> set ''0123456789'')"

definition digitValue :: "char \<Rightarrow> nat" where
  "digitValue c = of_char c - 48"

text \<open>
  The Number that a natural number converts to: the nearest double, ties to even. Below
  \<open>2^53\<close> that is the number itself; above, the number is rounded to 53 significant bits, and
  a result of \<open>2^1024\<close> or more is \<open>Infinity\<close>.
\<close>

definition roundToEven :: "nat \<Rightarrow> nat" where
  "roundToEven n =
     (if n < 2 ^ 53 then n
      else
        let e = floorlog 2 n - 53;
            q = n div 2 ^ e;
            r = n mod 2 ^ e;
            half = 2 ^ (e - 1)
        in (if half < r \<or> (r = half \<and> odd q) then q + 1 else q) * 2 ^ e)"

definition toDouble :: "nat \<Rightarrow> jsnum" where
  "toDouble n = (let v = roundToEven n in if 2 ^ 1024 \<le> v then PosInf else Fin (of_nat v))"

definition digitsValue :: "string \<Rightarrow> nat" where
  "digitsValue digits = foldl (\<lambda>acc c. 10 * acc + digitValue c) 0 digits"

text \<open>
  \<open>parseInt(digits, 10)\<close> is only ever applied to a run of decimal digits: the empty run
  gives \<open>NaN\<close>, any other run the Number of its value. The language allows an
  implementation to replace the digits after the twentieth by zeros before it converts; the
  model converts the exact value.
\<close>

definition parseInt10 :: "string \<Rightarrow> jsnum" where
  "parseInt10 digits = (if digits = [] then NaN else toDouble (digitsValue digits))"

definition parsePrice :: "cell option \<Rightarrow> jsnum" where
  "parsePrice val =
     (case val of
        Some (Num n t) \<Rightarrow> (case n of Fin q \<Rightarrow> Fin q | _ \<Rightarrow> Fin 0)
      | _ \<Rightarrow>
          let str = normalizeText val
          in if str = [] then Fin 0
             else
               let digits = filter isDigit str
               in orZero (Some (parseInt10 digits)))"

section \<open>Field resolution (components/MappingModal.tsx)\<close>

definition manualRetag :: "ColumnMapping \<Rightarrow> nat \<Rightarrow> ManualRetag option" where
  "manualRetag mapping rowIndex =
     (case manualRetagByRow mapping of None \<Rightarrow> None | Some tbl \<Rightarrow> tbl rowIndex)"

definition orEmpty :: "string list option \<Rightarrow> string list" where
  "orEmpty fs = (case fs of None \<Rightarrow> [] | Some ks \<Rightarrow> ks)"

text \<open>The loops \<open>for (const key of candidates)\<close> of the three resolvers.\<close>

fun firstText :: "RawExtractionItem \<Rightarrow> string list \<Rightarrow> string" where
  "firstText item [] = []"
| "firstText item (key # keys) =
     (let v = normalizeText (map_of item key)
      in if v \<noteq> [] then v else firstText item keys)"

fun firstPrice :: "RawExtractionItem \<Rightarrow> string list \<Rightarrow> jsnum" where
  "firstPrice item [] = Fin 0"
| "firstPrice item (key # keys) =
     (let v = parsePrice (map_of item key)
      in if gt0 v then v else firstPrice item keys)"

definition resolveName :: "ColumnMapping \<Rightarrow> RawExtractionItem \<Rightarrow> nat \<Rightarrow> string" where
  "resolveName mapping item rowIndex =
     (let manualName =
            normalizeText (map_option Str (Option.bind (manualRetag mapping rowIndex) name))
      in if manualName \<noteq> [] then manualName
         else
           let candidates =
                 filter (\<lambda>k. k \<noteq> [])
                   (nameField mapping # orEmpty (nameFallbackFields mapping))
           in firstText item candidates)"

definition resolveCost :: "ColumnMapping \<Rightarrow> RawExtractionItem \<Rightarrow> nat \<Rightarrow> jsnum" where
  "resolveCost mapping item rowIndex =
     (let manualCost = orZero (Option.bind (manualRetag mapping rowIndex) costPrice)
      in if gt0 manualCost then manualCost
         else
           let candidates =
                 filter (\<lambda>k. k \<noteq> [])
                   (costField mapping # orEmpty (costFallbackFields mapping))
           in firstPrice item candidates)"

definition resolveSrp :: "ColumnMapping \<Rightarrow> RawExtractionItem \<Rightarrow> nat \<Rightarrow> jsnum" where
  "resolveSrp mapping item rowIndex =
     (let manualSrp = orZero (Option.bind (manualRetag mapping rowIndex) srpPrice)
      in if gt0 manualSrp then manualSrp
         else
           case srpField mapping of
             None \<Rightarrow> Fin 0
           | Some f \<Rightarrow>
               if f = [] then Fin 0
               else
                 let candidates =
                       filter (\<lambda>k. k \<noteq> []) (f # orEmpty (srpFallbackFields mapping))
                 in firstPrice item candidates)"

section \<open>Readiness analysis: \<open>importAnalysis\<close> (components/MappingModal.tsx)\<close>

definition getPopulatedColumns :: "RawExtractionItem \<Rightarrow> string list" where
  "getPopulatedColumns item =
     filter (\<lambda>key. normalizeText (map_of item key) \<noteq> []) (map fst item)"

definition getUnresolvedReason :: "string \<Rightarrow> jsnum \<Rightarrow> string" where
  "getUnresolvedReason nm cost =
     (if nm = [] \<and> le0 cost then ''Missing Product Name and Cost Price''
      else if nm = [] then ''Missing Product Name''
      else ''Missing Cost Price'')"

text \<open>An entry of \<open>unresolved\<close> has every field of an entry of \<open>rows\<close> but \<open>isResolved\<close>.\<close>

record UnresolvedRow =
  index :: nat
  row :: RawExtractionItem
  currentName :: string
  currentCost :: jsnum
  reason :: string
  hasName :: bool
  hasCost :: bool
  populatedColumns :: "string list"

record AnalysisRow = UnresolvedRow +
  isResolved :: bool

record ImportAnalysis =
  total :: nat
  ready :: nat
  unresolved :: "UnresolvedRow list"
  rows :: "AnalysisRow list"

text \<open>One call of the callback of \<open>data.forEach\<close>, on the three accumulators.\<close>

definition analyseRow ::
  "ColumnMapping \<Rightarrow> nat \<times> UnresolvedRow list \<times> AnalysisRow list \<Rightarrow> nat \<times> RawExtractionItem
     \<Rightarrow> nat \<times> UnresolvedRow list \<times> AnalysisRow list" where
  "analyseRow mapping acc entry =
     (case acc of (rdy, unres, rws) \<Rightarrow>
      case entry of (idx, item) \<Rightarrow>
        let cName = resolveName mapping item idx;
            cCost = resolveCost mapping item idx;
            hName = (cName \<noteq> []);
            hCost = gt0 cCost;
            resolved = (hName \<and> hCost);
            rsn = getUnresolvedReason cName cCost;
            populated = getPopulatedColumns item;
            u = \<lparr>index = idx, row = item, currentName = cName, currentCost = cCost,
                 reason = rsn, hasName = hName, hasCost = hCost,
                 populatedColumns = populated\<rparr>;
            rws' = rws @ [UnresolvedRow.extend u \<lparr>isResolved = resolved\<rparr>]
        in if resolved then (rdy + 1, unres, rws')
           else (rdy, unres @ [u], rws'))"

definition importAnalysis :: "ColumnMapping \<Rightarrow> RawExtractionItem list \<Rightarrow> ImportAnalysis" where
  "importAnalysis mapping data =
     (case foldl (analyseRow mapping) (0, [], []) (zip [0..<length data] data) of
        (rdy, unres, rws) \<Rightarrow>
          \<lparr>total = length data, ready = rdy, unresolved = unres, rows = rws\<rparr>)"

section \<open>Column harmonisation: \<open>harmonizeColumnNames\<close> (services/geminiService.ts)\<close>

text \<open>
  \<open>Array.from(new Set(xs))\<close>: the elements of \<open>xs\<close> without repetition, in the order of
  their first occurrence.
\<close>

fun setFrom :: "'a list \<Rightarrow> 'a list \<Rightarrow> 'a list" where
  "setFrom seen [] = seen"
| "setFrom seen (x # xs) = (if x \<in> set seen then setFrom seen xs else setFrom (seen @ [x]) xs)"

definition allKeysOf :: "RawExtractionItem list \<Rightarrow> string list" where
  "allKeysOf rws = setFrom [] (concat (map (map fst) rws))"

text \<open>
  The insertion-ordered \<open>Map\<close> of groups and the rewritten row are association lists;
  \<open>Map.set\<close> and the assignment of a property are \<open>AList.update\<close>, which replaces the value
  of a key in place and appends a new key at the end. \<open>assigned\<close> is a set of keys.
\<close>

definition scanKey ::
  "string \<Rightarrow> string list \<times> string set \<Rightarrow> string \<Rightarrow> string list \<times> string set" where
  "scanKey key st otherKey =
     (case st of (grp, assigned) \<Rightarrow>
        if otherKey \<in> assigned then (grp, assigned)
        else
          let score = similarityScore key otherKey
          in if score \<ge> 75 / 100 then (grp @ [otherKey], insert otherKey assigned)
             else (grp, assigned))"

definition openGroup ::
  "string list \<Rightarrow> (string \<times> string list) list \<times> string set \<Rightarrow> string
     \<Rightarrow> (string \<times> string list) list \<times> string set" where
  "openGroup allKeys st key =
     (case st of (groups, assigned) \<Rightarrow>
        if key \<in> assigned then (groups, assigned)
        else
          case foldl (scanKey key) ([key], insert key assigned) allKeys of
            (grp, assigned') \<Rightarrow> (AList.update key grp groups, assigned'))"

definition buildGroups :: "string list \<Rightarrow> (string \<times> string list) list" where
  "buildGroups allKeys = fst (foldl (openGroup allKeys) ([], {}) allKeys)"

text \<open>
  A failure of the program is a value. The only one that the harmoniser can raise is the
  \<open>TypeError\<close> of a call of something that is not a function.
\<close>

datatype error = TypeError

text \<open>
  \<open>row.hasOwnProperty(variant)\<close> first reads the property \<open>hasOwnProperty\<close> of the row. A row
  with a header of that name holds a cell there, which cannot be called; every other row
  inherits the method, which tells whether \<open>variant\<close> is a header of the row.
\<close>

definition hasOwnProperty :: "RawExtractionItem \<Rightarrow> string \<Rightarrow> error + bool" where
  "hasOwnProperty item variant =
     (if map_of item ''hasOwnProperty'' \<noteq> None then Inl TypeError
      else Inr (map_of item variant \<noteq> None))"

text \<open>The loop over the variants of a group, up to its \<open>break\<close>.\<close>

fun firstVariant :: "RawExtractionItem \<Rightarrow> string list \<Rightarrow> error + string option" where
  "firstVariant item [] = Inr None"
| "firstVariant item (variant # variants) =
     (case hasOwnProperty item variant of
        Inl e \<Rightarrow> Inl e
      | Inr own \<Rightarrow> if own then Inr (Some variant) else firstVariant item variants)"

text \<open>
  \<open>normalized[canonical] = v\<close> on an object literal: the key \<open>__proto__\<close> reaches the setter
  of \<open>Object.prototype\<close>, which ignores a string or a number, so nothing is stored.
\<close>

definition assign :: "string \<Rightarrow> cell \<Rightarrow> RawExtractionItem \<Rightarrow> RawExtractionItem" where
  "assign canonical v normalized =
     (if canonical = ''__proto__'' then normalized else AList.update canonical v normalized)"

definition copyVariant ::
  "RawExtractionItem \<Rightarrow> RawExtractionItem \<Rightarrow> string \<times> string list
     \<Rightarrow> error + RawExtractionItem" where
  "copyVariant item normalized g =
     (case g of (canonical, variants) \<Rightarrow>
        case firstVariant item variants of
          Inl e \<Rightarrow> Inl e
        | Inr None \<Rightarrow> Inr normalized
        | Inr (Some variant) \<Rightarrow>
            (case map_of item variant of
               None \<Rightarrow> Inr normalized
             | Some v \<Rightarrow> Inr (assign canonical v normalized)))"

text \<open>The loop over the groups, and \<open>rows.map\<close>; both stop at the first failure.\<close>

fun rewriteLoop ::
  "RawExtractionItem \<Rightarrow> RawExtractionItem \<Rightarrow> (string \<times> string list) list
     \<Rightarrow> error + RawExtractionItem" where
  "rewriteLoop item normalized [] = Inr normalized"
| "rewriteLoop item normalized (g # groups) =
     (case copyVariant item normalized g of
        Inl e \<Rightarrow> Inl e
      | Inr normalized' \<Rightarrow> rewriteLoop item normalized' groups)"

definition rewriteRow ::
  "(string \<times> string list) list \<Rightarrow> RawExtractionItem \<Rightarrow> error + RawExtractionItem" where
  "rewriteRow groups item = rewriteLoop item [] groups"

fun mapRows :: "('a \<Rightarrow> error + 'b) \<Rightarrow> 'a list \<Rightarrow> error + 'b list" where
  "mapRows f [] = Inr []"
| "mapRows f (r # rs) =
     (case f r of
        Inl e \<Rightarrow> Inl e
      | Inr x \<Rightarrow> (case mapRows f rs of Inl e \<Rightarrow> Inl e | Inr xs \<Rightarrow> Inr (x # xs)))"

definition harmonizeColumnNames :: "RawExtractionItem list \<Rightarrow> error + RawExtractionItem list" where
  "harmonizeColumnNames rws =
     (if rws = [] then Inr rws
      else
        let allKeys = allKeysOf rws
        in if allKeys = [] then Inr rws
           else
             let groups = buildGroups allKeys
             in mapRows (rewriteRow groups) rws)"

section \<open>Concrete inputs and auxiliary predicates\<close>

text \<open>A number is a non-negative integer.\<close>

fun nonNegInteger :: "jsnum \<Rightarrow> bool" where
  "nonNegInteger (Fin q) = (0 \<le> q \<and> of_int \<lfloor>q\<rfloor> = q)"
| "nonNegInteger NaN = False"
| "nonNegInteger PosInf = False"
| "nonNegInteger NegInf = False"

text \<open>The mapping \<open>{nameField: "Desc", costField: "Net"}\<close> with every optional field
  absent, the two rows of the scenario, and variations of the mapping.\<close>

definition mapping_Desc_Net :: ColumnMapping where
  "mapping_Desc_Net =
     \<lparr>nameField = ''Desc'', costField = ''Net'', srpField = None, brandName = [],
      nameFallbackFields = None, costFallbackFields = None, srpFallbackFields = None,
      manualRetagByRow = None\<rparr>"

definition row_Sony :: RawExtractionItem where
  "row_Sony = [(''Desc'', Str ''Sony A7C''), (''Net'', Str ''24.845'')]"

definition row_no_desc :: RawExtractionItem where
  "row_no_desc = [(''Desc'', Str []), (''Net'', Str ''91.199'')]"

definition batch_two :: "RawExtractionItem list" where
  "batch_two = [row_Sony, row_no_desc]"

definition retag_unknown_item :: ManualRetag where
  "retag_unknown_item = \<lparr>name = Some ''Unknown Item'', costPrice = None, srpPrice = None\<rparr>"

definition mapping_retag_unknown :: ColumnMapping where
  "mapping_retag_unknown =
     mapping_Desc_Net\<lparr>manualRetagByRow := Some [1 \<mapsto> retag_unknown_item]\<rparr>"

definition retag_dash :: ManualRetag where
  "retag_dash = \<lparr>name = Some ''-'', costPrice = None, srpPrice = None\<rparr>"

definition mapping_retag_dash :: ColumnMapping where
  "mapping_retag_dash = mapping_Desc_Net\<lparr>manualRetagByRow := Some [0 \<mapsto> retag_dash]\<rparr>"

definition mapping_no_srpField :: ColumnMapping where
  "mapping_no_srpField = mapping_Desc_Net\<lparr>srpFallbackFields := Some [''Net'']\<rparr>"

text \<open>A row with a primary and a fallback cell for the name and for the cost, the same row
  with the primary cells cleared, and a mapping with fallback fields, without and with a
  manual retag of row 0.\<close>

definition row_three_sources :: RawExtractionItem where
  "row_three_sources =
     [(''Desc'', Str ''Primary''), (''Alt'', Str ''Fallback''),
      (''Net'', Str ''100''), (''List'', Str ''200'')]"

definition row_primary_cleared :: RawExtractionItem where
  "row_primary_cleared =
     [(''Desc'', Str []), (''Alt'', Str ''Fallback''),
      (''Net'', Str []), (''List'', Str ''200'')]"

definition mapping_fallbacks :: ColumnMapping where
  "mapping_fallbacks =
     mapping_Desc_Net\<lparr>nameFallbackFields := Some [''Alt''], costFallbackFields := Some [''List'']\<rparr>"

definition retag_manual :: ManualRetag where
  "retag_manual = \<lparr>name = Some ''Manual'', costPrice = Some (Fin 5), srpPrice = None\<rparr>"

definition mapping_fallbacks_retag :: ColumnMapping where
  "mapping_fallbacks_retag = mapping_fallbacks\<lparr>manualRetagByRow := Some [0 \<mapsto> retag_manual]\<rparr>"

text \<open>A batch whose headers vary from row to row, with a row that has no header.\<close>

definition batch_prices :: "RawExtractionItem list" where
  "batch_prices =
     [[(''Cost Price'', Str ''1''), (''Name'', Str ''a'')],
      [(''Dealer Price'', Str ''2''), (''SRP Price'', Str ''3'')],
      []]"

text \<open>
  The invariant of the outer loop of the grouping: \<open>assigned\<close> is the set of the members of
  the groups, no key is in two groups, every group starts with its canonical key and its
  other members come later in \<open>allKeys\<close>, every key similar to a canonical key is assigned,
  and no two canonical keys are similar.
\<close>

definition groups_inv :: "string list \<Rightarrow> (string \<times> string list) list \<times> string set \<Rightarrow> bool" where
  "groups_inv allKeys st =
     (case st of (groups, assigned) \<Rightarrow>
        assigned = set (concat (map snd groups))
        \<and> distinct (concat (map snd groups))
        \<and> assigned \<subseteq> set allKeys
        \<and> (\<forall>(c, vs) \<in> set groups. \<exists>rest pre post.
              vs = c # rest \<and> allKeys = pre @ c # post \<and> set rest \<subseteq> set post)
        \<and> (\<forall>c \<in> fst ` set groups. \<forall>k \<in> set allKeys.
              75 / 100 \<le> similarityScore c k \<longrightarrow> k \<in> assigned)
        \<and> (\<forall>c \<in> fst ` set groups. \<forall>c' \<in> fst ` set groups.
              c \<noteq> c' \<longrightarrow> \<not> 75 / 100 \<le> similarityScore c c'))"

text \<open>
  What one group contributes to a rewritten row when no call fails: the cell of the first
  variant that the row has, under the canonical key, or nothing when the row has none of the
  variants or the canonical key is \<open>__proto__\<close>. A rewritten row is made of the contributions
  of the groups, in the order of the groups.
\<close>

definition readVariant :: "RawExtractionItem \<Rightarrow> string list \<Rightarrow> cell option" where
  "readVariant item variants =
     (case find (\<lambda>variant. map_of item variant \<noteq> None) variants of
        None \<Rightarrow> None
      | Some variant \<Rightarrow> map_of item variant)"

definition groupEntry :: "RawExtractionItem \<Rightarrow> string \<times> string list \<Rightarrow> RawExtractionItem" where
  "groupEntry item g =
     (if fst g = ''__proto__'' then []
      else case readVariant item (snd g) of None \<Rightarrow> [] | Some v \<Rightarrow> [(fst g, v)])"

definition rowEntries :: "(string \<times> string list) list \<Rightarrow> RawExtractionItem \<Rightarrow> RawExtractionItem" where
  "rowEntries groups item = concat (map (groupEntry item) groups)"

text \<open>A batch with a header named \<open>hasOwnProperty\<close>.\<close>

definition batch_hasOwnProperty :: "RawExtractionItem list" where
  "batch_hasOwnProperty = [[(''Name'', Str ''a''), (''hasOwnProperty'', Str ''x'')]]"

section \<open>Properties of the similarity score\<close>

lemma countMatches_commute:
  "countMatches x y (min (length x) (length y)) = countMatches y x (min (length y) (length x))"
proof -
  have "(\<lambda>i. x ! i = y ! i) = (\<lambda>i. y ! i = x ! i)"
    by (rule ext) (rule eq_commute)
  then show ?thesis
    by (simp add: countMatches_def min.commute)
qed

lemma overlap_positive_iff:
  "0 < length (filter (\<lambda>p. p \<in> set ys) xs) \<longleftrightarrow> set xs \<inter> set ys \<noteq> {}"
  by (induction xs) auto

text \<open>
  C4. Anti-match: when the two headers are not equal up to letter case and one of them matches
  the \<open>cost\<close> pattern while the other matches the \<open>srp\<close> pattern (in either direction), the
  score is 0.2, whatever other categories the two headers share.
\<close>

theorem similarityScore_anti_match:
  assumes "toLowerCase a \<noteq> toLowerCase b"
    and "(regex_test pat_cost a \<and> regex_test pat_srp b)
         \<or> (regex_test pat_srp a \<and> regex_test pat_cost b)"
  shows "similarityScore a b = 2 / 10"
  using assms by (auto simp add: similarityScore_def Let_def)

theorem similarityScore_anti_match_witness:
  "toLowerCase ''Cost Price'' \<noteq> toLowerCase ''SRP Price''
   \<and> regex_test pat_cost ''Cost Price'' \<and> regex_test pat_srp ''SRP Price''
   \<and> regex_test pat_price ''Cost Price'' \<and> regex_test pat_price ''SRP Price''
   \<and> similarityScore ''Cost Price'' ''SRP Price'' = 2 / 10"
proof -
  have ne: "toLowerCase ''Cost Price'' \<noteq> toLowerCase ''SRP Price''"
    by (simp add: toLowerCase_def lowerChar_def)
  have c: "regex_test pat_cost ''Cost Price''"
    by (simp add: regex_test_def pat_cost_def toLowerCase_def lowerChar_def sublist_code)
  have s: "regex_test pat_srp ''SRP Price''"
    by (simp add: regex_test_def pat_srp_def toLowerCase_def lowerChar_def sublist_code)
  have p1: "regex_test pat_price ''Cost Price''"
    by (simp add: regex_test_def pat_price_def toLowerCase_def lowerChar_def sublist_code)
  have p2: "regex_test pat_price ''SRP Price''"
    by (simp add: regex_test_def pat_price_def toLowerCase_def lowerChar_def sublist_code)
  from c s have "(regex_test pat_cost ''Cost Price'' \<and> regex_test pat_srp ''SRP Price'')
         \<or> (regex_test pat_srp ''Cost Price'' \<and> regex_test pat_cost ''SRP Price'')"
    by simp
  from similarityScore_anti_match [OF ne this] ne c s p1 p2 show ?thesis
    by simp
qed

lemma similarityScore_swap: "similarityScore a b = similarityScore b a"
proof -
  have eq: "(toLowerCase a = toLowerCase b) = (toLowerCase b = toLowerCase a)"
    by (rule eq_commute)
  have ov: "(0 < length (filter (\<lambda>p. p \<in> set (matchedPatterns b)) (matchedPatterns a)))
          = (0 < length (filter (\<lambda>p. p \<in> set (matchedPatterns a)) (matchedPatterns b)))"
    by (simp only: overlap_positive_iff Int_commute)
  have anti: "((regex_test pat_cost a \<and> regex_test pat_srp b)
                \<or> (regex_test pat_srp a \<and> regex_test pat_cost b))
            = ((regex_test pat_cost b \<and> regex_test pat_srp a)
                \<or> (regex_test pat_srp b \<and> regex_test pat_cost a))"
    by blast
  have cm: "countMatches (toLowerCase a) (toLowerCase b)
              (min (length (toLowerCase a)) (length (toLowerCase b)))
          = countMatches (toLowerCase b) (toLowerCase a)
              (min (length (toLowerCase b)) (length (toLowerCase a)))"
    by (rule countMatches_commute)
  have mx: "max (length (toLowerCase a)) (length (toLowerCase b))
          = max (length (toLowerCase b)) (length (toLowerCase a))"
    by (rule max.commute)
  show ?thesis
    unfolding similarityScore_def Let_def
    by (simp only: eq ov anti cm mx)
qed

text \<open>
  C10. The score is exactly commutative: swapping the two headers never changes it.
\<close>

theorem similarityScore_commute:
  "similarityScore a b = similarityScore b a"
  by (rule similarityScore_swap)

section \<open>The price normaliser\<close>

lemma nonNegInteger_of_nat: "nonNegInteger (Fin (of_nat n))"
  by simp

lemma toDouble_cases: "toDouble n = Fin (of_nat (roundToEven n)) \<or> toDouble n = PosInf"
  by (simp add: toDouble_def Let_def)

lemma toDouble_exact: "n < 2 ^ 53 \<Longrightarrow> toDouble n = Fin (of_nat n)"
  by (simp add: toDouble_def roundToEven_def Let_def)

lemma double_range: "(10::nat) ^ 308 + 2 ^ 971 \<le> 2 ^ 1024"
  by simp

lemma roundToEven_le: "roundToEven n \<le> n + 2 ^ (floorlog 2 n - 53)"
proof (cases "n < 2 ^ 53")
  case True
  then show ?thesis by (simp add: roundToEven_def)
next
  case False
  define e where "e = floorlog 2 n - 53"
  define q where "q = n div 2 ^ e"
  define m where
    "m = (if 2 ^ (e - 1) < n mod 2 ^ e \<or> (n mod 2 ^ e = 2 ^ (e - 1) \<and> odd q) then q + 1 else q)"
  have r: "roundToEven n = m * 2 ^ e"
    using False by (simp add: roundToEven_def Let_def e_def q_def m_def)
  have "q * 2 ^ e \<le> n"
    by (simp add: q_def)
  moreover have "m \<le> q + 1" by (simp add: m_def)
  then have "m * 2 ^ e \<le> (q + 1) * 2 ^ e"
    by (rule mult_right_mono) simp
  ultimately have "m * 2 ^ e \<le> n + 2 ^ e"
    by (simp add: algebra_simps)
  then show ?thesis by (simp only: r e_def)
qed

lemma toDouble_finite:
  assumes "n < 10 ^ 308"
  shows "toDouble n = Fin (of_nat (roundToEven n))"
proof -
  define B :: nat where "B = 2 ^ 1024"
  define T :: nat where "T = 10 ^ 308"
  define S :: nat where "S = 2 ^ 971"
  have bb: "T + S \<le> B"
    unfolding T_def S_def B_def by (rule double_range)
  from assms have nT: "n < T" by (simp only: T_def)
  with bb have "n < B" by linarith
  then have "n < 2 ^ 1024" by (simp only: B_def)
  then have "floorlog 2 n \<le> 1024"
    by (rule floorlog_leI) simp_all
  then have "floorlog 2 n - 53 \<le> 971" by simp
  then have "(2::nat) ^ (floorlog 2 n - 53) \<le> 2 ^ 971"
    by (rule power_increasing) simp
  then have "(2::nat) ^ (floorlog 2 n - 53) \<le> S" by (simp only: S_def)
  with roundToEven_le [of n] nT bb have "roundToEven n < B" by linarith
  then have "\<not> 2 ^ 1024 \<le> roundToEven n" by (simp only: B_def not_le)
  then show ?thesis by (simp add: toDouble_def Let_def)
qed

lemma digitsValue_snoc: "digitsValue (ds @ [c]) = 10 * digitsValue ds + digitValue c"
  by (simp add: digitsValue_def)

lemma digitValue_bound: "isDigit c \<Longrightarrow> digitValue c \<le> 9"
  by (auto simp add: isDigit_def digitValue_def)

lemma digitsValue_bound:
  assumes "\<forall>c \<in> set ds. isDigit c"
  shows "digitsValue ds < 10 ^ length ds"
  using assms
proof (induction ds rule: rev_induct)
  case Nil
  show ?case by (simp add: digitsValue_def)
next
  case (snoc c ds)
  then have "digitsValue ds < 10 ^ length ds" and "digitValue c \<le> 9"
    by (simp_all add: digitValue_bound)
  then have "10 * digitsValue ds + digitValue c < 10 * 10 ^ length ds"
    by linarith
  then show ?case by (simp add: digitsValue_snoc)
qed

lemma filter_dropWhile_length:
  "length (filter P (dropWhile Q xs)) \<le> length (filter P xs)"
  by (induction xs) auto

lemma trim_digits: "length (filter isDigit (trim s)) \<le> length (filter isDigit s)"
proof -
  have "length (filter isDigit (trim s))
      = length (filter isDigit (dropWhile isSpace (rev (dropWhile isSpace s))))"
    by (simp add: trim_def rev_filter [symmetric])
  also have "\<dots> \<le> length (filter isDigit (rev (dropWhile isSpace s)))"
    by (rule filter_dropWhile_length)
  also have "\<dots> = length (filter isDigit (dropWhile isSpace s))"
    by (simp add: rev_filter [symmetric])
  also have "\<dots> \<le> length (filter isDigit s)"
    by (rule filter_dropWhile_length)
  finally show ?thesis .
qed

lemma normalizeText_text_cases:
  "normalizeText (Some (Str s)) = [] \<or> normalizeText (Some (Str s)) = trim s"
  by (simp add: normalizeText_def Let_def)

lemma orZero_integer: "nonNegInteger (orZero (Some (Fin (of_nat k))))"
  by simp

lemma orZero_parseInt10_cases:
  "nonNegInteger (orZero (Some (parseInt10 ds))) \<or> orZero (Some (parseInt10 ds)) = PosInf"
proof (cases "ds = []")
  case True
  then show ?thesis by (simp add: parseInt10_def)
next
  case False
  from toDouble_cases [of "digitsValue ds"] show ?thesis
  proof
    assume "toDouble (digitsValue ds) = Fin (of_nat (roundToEven (digitsValue ds)))"
    with False have "parseInt10 ds = Fin (of_nat (roundToEven (digitsValue ds)))"
      by (simp add: parseInt10_def)
    then show ?thesis by simp
  next
    assume "toDouble (digitsValue ds) = PosInf"
    with False show ?thesis by (simp add: parseInt10_def)
  qed
qed

lemma orZero_parseInt10_short:
  assumes "\<forall>c \<in> set ds. isDigit c" and "length ds \<le> 308"
  shows "nonNegInteger (orZero (Some (parseInt10 ds)))"
proof (cases "ds = []")
  case True
  then show ?thesis by (simp add: parseInt10_def)
next
  case False
  have "digitsValue ds < 10 ^ length ds"
    by (rule digitsValue_bound [OF assms(1)])
  also have "(10::nat) ^ length ds \<le> 10 ^ 308"
    using assms(2) by (intro power_increasing) simp_all
  finally have "toDouble (digitsValue ds) = Fin (of_nat (roundToEven (digitsValue ds)))"
    by (rule toDouble_finite)
  with False have "parseInt10 ds = Fin (of_nat (roundToEven (digitsValue ds)))"
    by (simp add: parseInt10_def)
  then show ?thesis by (simp only: orZero_integer)
qed

lemma parsePrice_text_unfold:
  "parsePrice (Some (Str s)) =
     (if normalizeText (Some (Str s)) = [] then Fin 0
      else orZero (Some (parseInt10 (filter isDigit (normalizeText (Some (Str s)))))))"
  by (simp add: parsePrice_def Let_def)

lemma parsePrice_text_cases:
  "nonNegInteger (parsePrice (Some (Str s))) \<or> parsePrice (Some (Str s)) = PosInf"
proof (cases "normalizeText (Some (Str s)) = []")
  case True
  then show ?thesis by (simp add: parsePrice_text_unfold)
next
  case False
  with orZero_parseInt10_cases [of "filter isDigit (normalizeText (Some (Str s)))"]
  show ?thesis by (simp only: parsePrice_text_unfold if_False)
qed

lemma parsePrice_text_short:
  assumes "length (filter isDigit s) \<le> 308"
  shows "nonNegInteger (parsePrice (Some (Str s)))"
proof (cases "normalizeText (Some (Str s)) = []")
  case True
  then show ?thesis by (simp add: parsePrice_text_unfold)
next
  case False
  with normalizeText_text_cases [of s] have n: "normalizeText (Some (Str s)) = trim s"
    by simp
  have "length (filter isDigit (trim s)) \<le> 308"
    using trim_digits [of s] assms by linarith
  moreover have "\<forall>c \<in> set (filter isDigit (trim s)). isDigit c" by simp
  ultimately have "nonNegInteger (orZero (Some (parseInt10 (filter isDigit (trim s)))))"
    by (intro orZero_parseInt10_short)
  with False n show ?thesis by (simp only: parsePrice_text_unfold if_False)
qed

lemma parsePrice_undefined: "parsePrice None = Fin 0"
  by (simp add: parsePrice_def normalizeText_def)

text \<open>
  C3, as stated, fails: the number \<open>-5\<close> is handed back as it is, and is not non-negative.
\<close>

theorem parsePrice_negative_number_counterexample:
  "\<not> nonNegInteger (parsePrice (Some (Num (Fin (- 5)) ''-5'')))"
  by (simp add: parsePrice_def)

text \<open>
  C3, amended. For every string with at most 308 digits the price is a non-negative integer,
  and for every string it is a non-negative integer or \<open>Infinity\<close>; the string \<open>"-5"\<close>
  gives 5; a finite number is returned unchanged, so the number \<open>-5\<close> gives \<open>-5\<close>; a
  non-finite number gives 0.
\<close>

theorem parsePrice_contract:
  "(length (filter isDigit s) \<le> 308 \<longrightarrow> nonNegInteger (parsePrice (Some (Str s))))
   \<and> (nonNegInteger (parsePrice (Some (Str s))) \<or> parsePrice (Some (Str s)) = PosInf)
   \<and> parsePrice (Some (Str ''-5'')) = Fin 5
   \<and> parsePrice (Some (Num (Fin q) t)) = Fin q
   \<and> parsePrice (Some (Num (Fin (- 5)) ''-5'')) = Fin (- 5)
   \<and> parsePrice (Some (Num NaN t)) = Fin 0
   \<and> parsePrice (Some (Num PosInf t)) = Fin 0
   \<and> parsePrice (Some (Num NegInf t)) = Fin 0"
proof -
  have "parsePrice (Some (Str ''-5'')) = Fin 5"
    by (simp add: parsePrice_def normalizeText_def trim_def isSpace_def toLowerCase_def
        lowerChar_def placeholders_def isDigit_def parseInt10_def digitsValue_def digitValue_def
        toDouble_exact)
  moreover have "parsePrice (Some (Num n t)) = (case n of Fin q \<Rightarrow> Fin q | _ \<Rightarrow> Fin 0)" for n t
    by (simp add: parsePrice_def)
  ultimately show ?thesis
    using parsePrice_text_short [of s] parsePrice_text_cases [of s] by simp
qed

theorem parsePrice_contract_witness:
  "length (filter isDigit ''Rp 1.500.000'') \<le> 308
   \<and> nonNegInteger (parsePrice (Some (Str ''Rp 1.500.000'')))"
proof -
  have "length (filter isDigit ''Rp 1.500.000'') \<le> 308"
    by (simp add: isDigit_def)
  with parsePrice_contract [of "''Rp 1.500.000''"] show ?thesis
    by blast
qed

text \<open>A digit run that denotes \<open>2^1024\<close> or more is read as \<open>Infinity\<close>.\<close>

lemma toDouble_overflow:
  assumes "2 ^ 1024 \<le> n"
  shows "toDouble n = PosInf"
proof -
  define e where "e = floorlog 2 n - 53"
  define q where "q = n div 2 ^ e"
  define m where
    "m = (if 2 ^ (e - 1) < n mod 2 ^ e \<or> (n mod 2 ^ e = 2 ^ (e - 1) \<and> odd q) then q + 1 else q)"
  have "(2::nat) ^ 53 \<le> 2 ^ 1024" by (rule power_increasing) simp_all
  with assms have big: "\<not> n < 2 ^ 53" by linarith
  then have r: "roundToEven n = m * 2 ^ e"
    by (simp add: roundToEven_def Let_def e_def q_def m_def)
  from assms have L: "Suc 1024 \<le> floorlog 2 n"
    by (rule floorlog_ge_SucI) simp
  have n0: "0 < n" using big by (cases n) simp_all
  from floorlog_bounds [OF n0, of 2] have lo: "2 ^ (floorlog 2 n - 1) \<le> n" by simp
  have "floorlog 2 n - 1 = 52 + e" using L by (simp add: e_def)
  with lo have "2 ^ 52 * 2 ^ e \<le> n" by (simp add: power_add)
  then have "2 ^ 52 \<le> q"
    unfolding q_def by (simp add: less_eq_div_iff_mult_less_eq)
  moreover have "q \<le> m" by (simp add: m_def)
  ultimately have "2 ^ 52 \<le> m" by (rule order_trans)
  then have a: "2 ^ 52 * 2 ^ e \<le> m * 2 ^ e"
    by (rule mult_right_mono) simp
  have "(2::nat) ^ 1024 \<le> 2 ^ (52 + e)"
    using L by (intro power_increasing) (simp_all add: e_def)
  then have "(2::nat) ^ 1024 \<le> 2 ^ 52 * 2 ^ e"
    by (simp only: power_add)
  from this a have "2 ^ 1024 \<le> m * 2 ^ e" by (rule order_trans)
  then have "2 ^ 1024 \<le> roundToEven n" by (simp only: r)
  then show ?thesis by (simp add: toDouble_def Let_def)
qed


section \<open>The field resolver\<close>

lemma firstText_find:
  "firstText item (filter (\<lambda>k. k \<noteq> []) ks) =
     (case find (\<lambda>k. k \<noteq> [] \<and> normalizeText (map_of item k) \<noteq> []) ks of
        Some k \<Rightarrow> normalizeText (map_of item k)
      | None \<Rightarrow> [])"
  by (induction ks) (simp_all add: Let_def)

lemma firstPrice_find:
  "firstPrice item (filter (\<lambda>k. k \<noteq> []) ks) =
     (case find (\<lambda>k. k \<noteq> [] \<and> gt0 (parsePrice (map_of item k))) ks of
        Some k \<Rightarrow> parsePrice (map_of item k)
      | None \<Rightarrow> Fin 0)"
  by (induction ks) (simp_all add: Let_def)

lemma gt0_orZero: "gt0 (orZero x) \<longleftrightarrow> (case x of Some v \<Rightarrow> gt0 v | None \<Rightarrow> False)"
  by (cases x; cases "the x") (auto split: option.splits)

lemma orZero_gt0: "gt0 v \<Longrightarrow> orZero (Some v) = v"
  by (cases v) auto

lemma manualPrice_cases:
  "(if gt0 (orZero x) then orZero x else d) =
     (case x of Some v \<Rightarrow> if gt0 v then v else d | None \<Rightarrow> d)"
  by (cases x) (auto simp add: orZero_gt0 gt0_orZero simp del: orZero.simps)

lemma parsePrice_text_eval:
  assumes "normalizeText (Some (Str s)) = t" and "t \<noteq> []"
    and "filter isDigit t = ds" and "parseInt10 ds = Fin q" and "q \<noteq> 0"
  shows "parsePrice (Some (Str s)) = Fin q"
  using assms by (simp add: parsePrice_def)

text \<open>
  C1, as stated, fails: the manual name \<open>"-"\<close> of row 0 is present and not empty, yet the
  resolver returns the primary field of the row, because the override is normalised first and
  \<open>"-"\<close> is a placeholder.
\<close>

theorem resolveName_dash_override_counterexample:
  "Option.bind (manualRetag mapping_retag_dash 0) name = Some ''-''
   \<and> resolveName mapping_retag_dash row_Sony 0 = ''Sony A7C''
   \<and> resolveName mapping_retag_dash row_Sony 0 \<noteq> ''-''"
  by (simp add: resolveName_def manualRetag_def mapping_retag_dash_def mapping_Desc_Net_def
      retag_dash_def row_Sony_def normalizeText_def trim_def isSpace_def toLowerCase_def
      lowerChar_def placeholders_def orEmpty_def)

text \<open>
  C1, amended. \<open>resolveName\<close> returns the normalised manual name of the row when that is not
  empty; otherwise the normalised cell of the primary field when the field is set and the
  cell is not empty; otherwise the normalised cell of the first fallback field, in declared
  order, that is set and not empty; otherwise the empty string. \<open>resolveCost\<close> returns the
  manual cost of the row when it is greater than 0; otherwise the price of the primary field
  when the field is set and the price is greater than 0; otherwise the price of the first
  fallback field, in declared order, that is greater than 0; otherwise 0.
\<close>

theorem resolver_priority_chain:
  "resolveName mapping item i =
     (let manualName =
            normalizeText (map_option Str (Option.bind (manualRetag mapping i) name));
          primary = normalizeText (map_of item (nameField mapping))
      in if manualName \<noteq> [] then manualName
         else if nameField mapping \<noteq> [] \<and> primary \<noteq> [] then primary
         else
           case find (\<lambda>k. k \<noteq> [] \<and> normalizeText (map_of item k) \<noteq> [])
                  (orEmpty (nameFallbackFields mapping)) of
             Some k \<Rightarrow> normalizeText (map_of item k)
           | None \<Rightarrow> [])
   \<and> resolveCost mapping item i =
     (let primary = parsePrice (map_of item (costField mapping))
      in case Option.bind (manualRetag mapping i) costPrice of
           Some v \<Rightarrow>
             if gt0 v then v
             else if costField mapping \<noteq> [] \<and> gt0 primary then primary
             else
               (case find (\<lambda>k. k \<noteq> [] \<and> gt0 (parsePrice (map_of item k)))
                       (orEmpty (costFallbackFields mapping)) of
                  Some k \<Rightarrow> parsePrice (map_of item k)
                | None \<Rightarrow> Fin 0)
         | None \<Rightarrow>
             if costField mapping \<noteq> [] \<and> gt0 primary then primary
             else
               (case find (\<lambda>k. k \<noteq> [] \<and> gt0 (parsePrice (map_of item k)))
                       (orEmpty (costFallbackFields mapping)) of
                  Some k \<Rightarrow> parsePrice (map_of item k)
                | None \<Rightarrow> Fin 0))"
proof
  have "firstText item (filter (\<lambda>k. k \<noteq> []) (nameField mapping # ks)) =
      (if nameField mapping \<noteq> [] \<and> normalizeText (map_of item (nameField mapping)) \<noteq> []
       then normalizeText (map_of item (nameField mapping))
       else firstText item (filter (\<lambda>k. k \<noteq> []) ks))" for ks
    by (simp add: Let_def)
  then show "resolveName mapping item i =
     (let manualName =
            normalizeText (map_option Str (Option.bind (manualRetag mapping i) name));
          primary = normalizeText (map_of item (nameField mapping))
      in if manualName \<noteq> [] then manualName
         else if nameField mapping \<noteq> [] \<and> primary \<noteq> [] then primary
         else
           case find (\<lambda>k. k \<noteq> [] \<and> normalizeText (map_of item k) \<noteq> [])
                  (orEmpty (nameFallbackFields mapping)) of
             Some k \<Rightarrow> normalizeText (map_of item k)
           | None \<Rightarrow> [])"
    unfolding resolveName_def Let_def by (simp only: firstText_find)
next
  let ?fb = "case find (\<lambda>k. k \<noteq> [] \<and> gt0 (parsePrice (map_of item k)))
                       (orEmpty (costFallbackFields mapping)) of
                  Some k \<Rightarrow> parsePrice (map_of item k)
                | None \<Rightarrow> Fin 0"
  let ?auto = "if costField mapping \<noteq> [] \<and> gt0 (parsePrice (map_of item (costField mapping)))
       then parsePrice (map_of item (costField mapping)) else ?fb"
  have "firstPrice item (filter (\<lambda>k. k \<noteq> []) (costField mapping # ks)) =
      (if costField mapping \<noteq> [] \<and> gt0 (parsePrice (map_of item (costField mapping)))
       then parsePrice (map_of item (costField mapping))
       else firstPrice item (filter (\<lambda>k. k \<noteq> []) ks))" for ks
    by (simp add: Let_def)
  then have "resolveCost mapping item i =
      (if gt0 (orZero (Option.bind (manualRetag mapping i) costPrice))
       then orZero (Option.bind (manualRetag mapping i) costPrice) else ?auto)"
    unfolding resolveCost_def Let_def by (simp only: firstPrice_find)
  also have "\<dots> = (case Option.bind (manualRetag mapping i) costPrice of
       Some v \<Rightarrow> if gt0 v then v else ?auto | None \<Rightarrow> ?auto)"
    by (rule manualPrice_cases)
  finally show "resolveCost mapping item i =
     (let primary = parsePrice (map_of item (costField mapping))
      in case Option.bind (manualRetag mapping i) costPrice of
           Some v \<Rightarrow>
             if gt0 v then v
             else if costField mapping \<noteq> [] \<and> gt0 primary then primary
             else ?fb
         | None \<Rightarrow>
             if costField mapping \<noteq> [] \<and> gt0 primary then primary
             else ?fb)"
    unfolding Let_def .
qed

text \<open>
  C8. With no \<open>srpField\<close> configured (absent or empty), \<open>resolveSrp\<close> returns the manual
  SRP of the row when that is greater than 0, and 0 otherwise; neither the row nor the SRP
  fallback fields are consulted.
\<close>

theorem resolveSrp_short_circuit:
  assumes "srpField mapping = None \<or> srpField mapping = Some []"
  shows "resolveSrp mapping item i =
     (case Option.bind (manualRetag mapping i) srpPrice of
        Some v \<Rightarrow> if gt0 v then v else Fin 0
      | None \<Rightarrow> Fin 0)"
proof -
  from assms have "resolveSrp mapping item i =
      (if gt0 (orZero (Option.bind (manualRetag mapping i) srpPrice))
       then orZero (Option.bind (manualRetag mapping i) srpPrice) else Fin 0)"
    unfolding resolveSrp_def Let_def by auto
  then show ?thesis
    by (simp only: manualPrice_cases)
qed

theorem resolveSrp_short_circuit_witness:
  "srpField mapping_no_srpField = None
   \<and> srpFallbackFields mapping_no_srpField = Some [''Net'']
   \<and> parsePrice (map_of row_Sony ''Net'') = Fin 24845
   \<and> resolveSrp mapping_no_srpField row_Sony 0 = Fin 0"
proof -
  have f: "srpField mapping_no_srpField = None"
    by (simp add: mapping_no_srpField_def mapping_Desc_Net_def)
  have fb: "srpFallbackFields mapping_no_srpField = Some [''Net'']"
    by (simp add: mapping_no_srpField_def)
  have n: "normalizeText (Some (Str ''24.845'')) = ''24.845''"
    by (simp add: normalizeText_def trim_def isSpace_def toLowerCase_def lowerChar_def
        placeholders_def)
  have d: "filter isDigit ''24.845'' = ''24845''"
    by (simp add: isDigit_def)
  have p: "parseInt10 ''24845'' = Fin 24845"
    by (simp add: parseInt10_def digitsValue_def digitValue_def toDouble_exact)
  have "parsePrice (Some (Str ''24.845'')) = Fin 24845"
    by (rule parsePrice_text_eval [OF n _ d p]) simp_all
  then have c: "parsePrice (map_of row_Sony ''Net'') = Fin 24845"
    by (simp add: row_Sony_def)
  have m: "Option.bind (manualRetag mapping_no_srpField 0) srpPrice = None"
    by (simp add: manualRetag_def mapping_no_srpField_def mapping_Desc_Net_def)
  from f have "srpField mapping_no_srpField = None \<or> srpField mapping_no_srpField = Some []"
    by simp
  from resolveSrp_short_circuit [OF this, of row_Sony 0] f fb c m show ?thesis
    by simp
qed


section \<open>The readiness analysis\<close>

lemma zip_upt_snoc:
  "zip [0..<length (xs @ [x])] (xs @ [x]) = zip [0..<length xs] xs @ [(length xs, x)]"
  by simp

lemma importAnalysis_snoc:
  "foldl (analyseRow m) (0, [], []) (zip [0..<length (xs @ [x])] (xs @ [x])) =
     analyseRow m (foldl (analyseRow m) (0, [], []) (zip [0..<length xs] xs)) (length xs, x)"
  by (simp only: zip_upt_snoc foldl_append foldl.simps)

lemma analyseRow_invariant:
  assumes "foldl (analyseRow m) (0, [], []) (zip [0..<length xs] xs) = (rdy, unres, rws)"
  shows "map index rws = [0..<length xs] \<and> map row rws = xs
       \<and> unres = map UnresolvedRow.truncate (filter (\<lambda>r. \<not> isResolved r) rws)
       \<and> rdy = length (filter isResolved rws)"
  using assms
proof (induction xs arbitrary: rdy unres rws rule: rev_induct)
  case Nil
  then show ?case by simp
next
  case (snoc x xs)
  obtain r0 u0 w0 where prev:
    "foldl (analyseRow m) (0, [], []) (zip [0..<length xs] xs) = (r0, u0, w0)"
    by (cases "foldl (analyseRow m) (0, [], []) (zip [0..<length xs] xs)") auto
  from snoc.IH [OF prev] have ih:
    "map index w0 = [0..<length xs]" "map row w0 = xs"
    "u0 = map UnresolvedRow.truncate (filter (\<lambda>r. \<not> isResolved r) w0)"
    "r0 = length (filter isResolved w0)"
    by simp_all
  from snoc.prems have step: "analyseRow m (r0, u0, w0) (length xs, x) = (rdy, unres, rws)"
    by (simp only: importAnalysis_snoc prev)
  show ?case
    using step ih
    by (auto simp add: analyseRow_def Let_def UnresolvedRow.truncate_def UnresolvedRow.extend_def
        split: if_splits)
qed

text \<open>
  C9. For every batch and mapping, \<open>ready + length unresolved = total\<close> and \<open>total\<close> is the
  number of input rows; \<open>rows\<close> holds every input row once, in order, \<open>unresolved\<close> holds
  exactly the entries of \<open>rows\<close> that are not resolved, and \<open>ready\<close> counts the others.
\<close>

theorem importAnalysis_counts:
  "ready (importAnalysis m data) + length (unresolved (importAnalysis m data))
     = total (importAnalysis m data)
   \<and> total (importAnalysis m data) = length data
   \<and> map index (rows (importAnalysis m data)) = [0..<length data]
   \<and> map row (rows (importAnalysis m data)) = data
   \<and> unresolved (importAnalysis m data)
       = map UnresolvedRow.truncate
           (filter (\<lambda>r. \<not> isResolved r) (rows (importAnalysis m data)))
   \<and> ready (importAnalysis m data) = length (filter isResolved (rows (importAnalysis m data)))"
proof -
  obtain rdy unres rws where f:
    "foldl (analyseRow m) (0, [], []) (zip [0..<length data] data) = (rdy, unres, rws)"
    by (cases "foldl (analyseRow m) (0, [], []) (zip [0..<length data] data)") auto
  then have a: "importAnalysis m data
      = \<lparr>total = length data, ready = rdy, unresolved = unres, rows = rws\<rparr>"
    by (simp add: importAnalysis_def)
  from analyseRow_invariant [OF f] have inv:
    "map index rws = [0..<length data]" "map row rws = data"
    "unres = map UnresolvedRow.truncate (filter (\<lambda>r. \<not> isResolved r) rws)"
    "rdy = length (filter isResolved rws)"
    by simp_all
  have "length (filter isResolved rws) + length (filter (\<lambda>r. \<not> isResolved r) rws) = length rws"
    by (rule sum_length_filter_compl)
  moreover have "length rws = length data"
    using inv(2) by (metis length_map)
  ultimately have "rdy + length unres = length data"
    using inv(3,4) by simp
  with inv show ?thesis
    unfolding a by simp
qed


section \<open>The scenario\<close>

lemma normalizeText_plain_eval:
  assumes "trim s = t" and "t \<noteq> []" and "toLowerCase t \<notin> set placeholders"
  shows "normalizeText (Some (Str s)) = t"
  using assms by (simp add: normalizeText_def)

lemma normalizeText_Sony: "normalizeText (Some (Str ''Sony A7C'')) = ''Sony A7C''"
  by (rule normalizeText_plain_eval)
     (simp_all add: trim_def isSpace_def toLowerCase_def lowerChar_def placeholders_def)

lemma normalizeText_Unknown: "normalizeText (Some (Str ''Unknown Item'')) = ''Unknown Item''"
  by (rule normalizeText_plain_eval)
     (simp_all add: trim_def isSpace_def toLowerCase_def lowerChar_def placeholders_def)

lemma normalizeText_undefined: "normalizeText None = []"
  by (simp add: normalizeText_def)

lemma normalizeText_empty: "normalizeText (Some (Str [])) = []"
  by (simp add: normalizeText_def trim_def)

lemma normalizeText_24845: "normalizeText (Some (Str ''24.845'')) = ''24.845''"
  by (rule normalizeText_plain_eval)
     (simp_all add: trim_def isSpace_def toLowerCase_def lowerChar_def placeholders_def)

lemma normalizeText_91199: "normalizeText (Some (Str ''91.199'')) = ''91.199''"
  by (rule normalizeText_plain_eval)
     (simp_all add: trim_def isSpace_def toLowerCase_def lowerChar_def placeholders_def)

lemma parsePrice_24845: "parsePrice (Some (Str ''24.845'')) = Fin 24845"
proof (rule parsePrice_text_eval [OF normalizeText_24845])
  show "filter isDigit ''24.845'' = ''24845''" by (simp add: isDigit_def)
  show "parseInt10 ''24845'' = Fin 24845" by (simp add: parseInt10_def digitsValue_def digitValue_def toDouble_exact)
qed simp_all

lemma parsePrice_91199: "parsePrice (Some (Str ''91.199'')) = Fin 91199"
proof (rule parsePrice_text_eval [OF normalizeText_91199])
  show "filter isDigit ''91.199'' = ''91199''" by (simp add: isDigit_def)
  show "parseInt10 ''91199'' = Fin 91199" by (simp add: parseInt10_def digitsValue_def digitValue_def toDouble_exact)
qed simp_all

lemma no_retag: "manualRetag mapping_Desc_Net i = None"
  by (simp add: manualRetag_def mapping_Desc_Net_def)

lemma fields_Desc_Net:
  "nameField mapping_Desc_Net = ''Desc''" "costField mapping_Desc_Net = ''Net''"
  "nameFallbackFields mapping_Desc_Net = None" "costFallbackFields mapping_Desc_Net = None"
  by (simp_all add: mapping_Desc_Net_def)

lemma fields_retag_unknown:
  "nameField mapping_retag_unknown = ''Desc''" "costField mapping_retag_unknown = ''Net''"
  "nameFallbackFields mapping_retag_unknown = None"
  "costFallbackFields mapping_retag_unknown = None"
  "manualRetag mapping_retag_unknown (Suc 0) = Some retag_unknown_item"
  "manualRetag mapping_retag_unknown 0 = None"
  by (simp_all add: mapping_retag_unknown_def mapping_Desc_Net_def manualRetag_def)

lemma cells:
  "map_of row_Sony ''Desc'' = Some (Str ''Sony A7C'')"
  "map_of row_Sony ''Net'' = Some (Str ''24.845'')"
  "map_of row_no_desc ''Desc'' = Some (Str [])"
  "map_of row_no_desc ''Net'' = Some (Str ''91.199'')"
  by (simp_all add: row_Sony_def row_no_desc_def)

lemma resolved_row0:
  "resolveName mapping_Desc_Net row_Sony 0 = ''Sony A7C''"
  "resolveCost mapping_Desc_Net row_Sony 0 = Fin 24845"
  by (simp_all add: resolveName_def resolveCost_def no_retag fields_Desc_Net orEmpty_def cells
      normalizeText_Sony parsePrice_24845 normalizeText_undefined)

lemma resolved_row1:
  "resolveName mapping_Desc_Net row_no_desc (Suc 0) = []"
  "resolveCost mapping_Desc_Net row_no_desc (Suc 0) = Fin 91199"
  by (simp_all add: resolveName_def resolveCost_def no_retag fields_Desc_Net orEmpty_def cells
      normalizeText_empty parsePrice_91199 normalizeText_undefined)

lemma resolved_row1_retag:
  "resolveName mapping_retag_unknown row_no_desc (Suc 0) = ''Unknown Item''"
  "resolveCost mapping_retag_unknown row_no_desc (Suc 0) = Fin 91199"
  by (simp_all add: resolveName_def resolveCost_def fields_retag_unknown orEmpty_def cells
      retag_unknown_item_def normalizeText_Unknown parsePrice_91199)

lemma populated:
  "getPopulatedColumns row_Sony = [''Desc'', ''Net'']"
  "getPopulatedColumns row_no_desc = [''Net'']"
  by (simp_all add: getPopulatedColumns_def row_Sony_def row_no_desc_def
      normalizeText_Sony normalizeText_24845 normalizeText_91199 normalizeText_empty)

lemma batch_two_entries: "zip [0..<length batch_two] batch_two = [(0, row_Sony), (Suc 0, row_no_desc)]"
  by (simp add: batch_two_def upt_rec)

text \<open>
  C2. The scenario: with the mapping \<open>Desc\<close>/\<open>Net\<close> and no override, row 0 resolves to
  \<open>Sony A7C\<close> at cost 24845 and is resolved, row 1 resolves to the empty name at cost 91199
  and is unresolved with reason \<open>Missing Product Name\<close>; the totals are 2 rows, 1 ready, and
  row 1 alone unresolved. With the manual name \<open>Unknown Item\<close> on row 1, row 1 is resolved.
\<close>

theorem importAnalysis_scenario:
  "importAnalysis mapping_Desc_Net batch_two =
     \<lparr>total = 2, ready = 1,
      unresolved =
        [\<lparr>index = 1, row = row_no_desc, currentName = [], currentCost = Fin 91199,
          reason = ''Missing Product Name'', hasName = False, hasCost = True,
          populatedColumns = [''Net'']\<rparr>],
      rows =
        [\<lparr>index = 0, row = row_Sony, currentName = ''Sony A7C'', currentCost = Fin 24845,
          reason = ''Missing Cost Price'', hasName = True, hasCost = True,
          populatedColumns = [''Desc'', ''Net''], isResolved = True\<rparr>,
         \<lparr>index = 1, row = row_no_desc, currentName = [], currentCost = Fin 91199,
          reason = ''Missing Product Name'', hasName = False, hasCost = True,
          populatedColumns = [''Net''], isResolved = False\<rparr>]\<rparr>
   \<and> row_Sony = [(''Desc'', Str ''Sony A7C''), (''Net'', Str ''24.845'')]
   \<and> row_no_desc = [(''Desc'', Str []), (''Net'', Str ''91.199'')]
   \<and> map isResolved (rows (importAnalysis mapping_retag_unknown batch_two)) = [True, True]
   \<and> map currentName (rows (importAnalysis mapping_retag_unknown batch_two))
       = [''Sony A7C'', ''Unknown Item'']
   \<and> unresolved (importAnalysis mapping_retag_unknown batch_two) = []"
proof -
  have s0: "analyseRow mapping_Desc_Net (0, [], []) (0, row_Sony) =
      (1, [], [\<lparr>index = 0, row = row_Sony, currentName = ''Sony A7C'', currentCost = Fin 24845,
          reason = ''Missing Cost Price'', hasName = True, hasCost = True,
          populatedColumns = [''Desc'', ''Net''], isResolved = True\<rparr>])"
    by (simp add: Let_def analyseRow_def resolved_row0 populated getUnresolvedReason_def
        UnresolvedRow.extend_def)
  have s1: "analyseRow mapping_Desc_Net (Suc 0, [], rws) (Suc 0, row_no_desc) =
      (1, [\<lparr>index = 1, row = row_no_desc, currentName = [], currentCost = Fin 91199,
          reason = ''Missing Product Name'', hasName = False, hasCost = True,
          populatedColumns = [''Net'']\<rparr>],
       rws @ [\<lparr>index = 1, row = row_no_desc, currentName = [], currentCost = Fin 91199,
          reason = ''Missing Product Name'', hasName = False, hasCost = True,
          populatedColumns = [''Net''], isResolved = False\<rparr>])" for rws
    by (simp add: Let_def analyseRow_def resolved_row1 populated getUnresolvedReason_def
        UnresolvedRow.extend_def)
  have a: "importAnalysis mapping_Desc_Net batch_two =
     \<lparr>total = 2, ready = 1,
      unresolved =
        [\<lparr>index = 1, row = row_no_desc, currentName = [], currentCost = Fin 91199,
          reason = ''Missing Product Name'', hasName = False, hasCost = True,
          populatedColumns = [''Net'']\<rparr>],
      rows =
        [\<lparr>index = 0, row = row_Sony, currentName = ''Sony A7C'', currentCost = Fin 24845,
          reason = ''Missing Cost Price'', hasName = True, hasCost = True,
          populatedColumns = [''Desc'', ''Net''], isResolved = True\<rparr>,
         \<lparr>index = 1, row = row_no_desc, currentName = [], currentCost = Fin 91199,
          reason = ''Missing Product Name'', hasName = False, hasCost = True,
          populatedColumns = [''Net''], isResolved = False\<rparr>]\<rparr>"
    unfolding importAnalysis_def batch_two_entries
    by (simp add: s0 s1) (simp add: batch_two_def)
  have r0: "resolveName mapping_retag_unknown row_Sony 0 = ''Sony A7C''"
    "resolveCost mapping_retag_unknown row_Sony 0 = Fin 24845"
    by (simp_all add: resolveName_def resolveCost_def fields_retag_unknown orEmpty_def cells
        normalizeText_Sony parsePrice_24845 normalizeText_undefined)
  have t0: "analyseRow mapping_retag_unknown (0, [], []) (0, row_Sony) =
      (1, [], [\<lparr>index = 0, row = row_Sony, currentName = ''Sony A7C'', currentCost = Fin 24845,
          reason = ''Missing Cost Price'', hasName = True, hasCost = True,
          populatedColumns = [''Desc'', ''Net''], isResolved = True\<rparr>])"
    by (simp add: Let_def analyseRow_def r0 populated getUnresolvedReason_def UnresolvedRow.extend_def)
  have t1: "analyseRow mapping_retag_unknown (Suc 0, [], rws) (Suc 0, row_no_desc) =
      (2, [],
       rws @ [\<lparr>index = 1, row = row_no_desc, currentName = ''Unknown Item'',
          currentCost = Fin 91199,
          reason = ''Missing Cost Price'', hasName = True, hasCost = True,
          populatedColumns = [''Net''], isResolved = True\<rparr>])" for rws
    by (simp add: Let_def analyseRow_def resolved_row1_retag populated getUnresolvedReason_def
        UnresolvedRow.extend_def)
  have b: "importAnalysis mapping_retag_unknown batch_two =
     \<lparr>total = 2, ready = 2, unresolved = [],
      rows =
        [\<lparr>index = 0, row = row_Sony, currentName = ''Sony A7C'', currentCost = Fin 24845,
          reason = ''Missing Cost Price'', hasName = True, hasCost = True,
          populatedColumns = [''Desc'', ''Net''], isResolved = True\<rparr>,
         \<lparr>index = 1, row = row_no_desc, currentName = ''Unknown Item'',
          currentCost = Fin 91199,
          reason = ''Missing Cost Price'', hasName = True, hasCost = True,
          populatedColumns = [''Net''], isResolved = True\<rparr>]\<rparr>"
    unfolding importAnalysis_def batch_two_entries
    by (simp add: t0 t1) (simp add: batch_two_def)
  show ?thesis
    unfolding a b by (simp add: row_Sony_def row_no_desc_def)
qed

section \<open>The priority chain on a row with three sources\<close>

lemma normalizeText_samples:
  "normalizeText (Some (Str ''Manual'')) = ''Manual''"
  "normalizeText (Some (Str ''Primary'')) = ''Primary''"
  "normalizeText (Some (Str ''Fallback'')) = ''Fallback''"
  by (rule normalizeText_plain_eval;
      simp add: trim_def isSpace_def toLowerCase_def lowerChar_def placeholders_def)+

lemma parsePrice_samples:
  "parsePrice (Some (Str ''100'')) = Fin 100"
  "parsePrice (Some (Str ''200'')) = Fin 200"
  "parsePrice (Some (Str [])) = Fin 0"
  by (simp_all add: parsePrice_def normalizeText_def trim_def isSpace_def toLowerCase_def
      lowerChar_def placeholders_def isDigit_def parseInt10_def digitsValue_def digitValue_def
      toDouble_exact)

text \<open>
  The chain of C1 on a row where the manual retag, the primary field and the fallback field
  hold different values: the manual values win; without the retag the primary cells win;
  with the primary cells cleared the fallback cells win.
\<close>

theorem resolver_priority_chain_witness:
  "resolveName mapping_fallbacks_retag row_three_sources 0 = ''Manual''
   \<and> resolveCost mapping_fallbacks_retag row_three_sources 0 = Fin 5
   \<and> resolveName mapping_fallbacks row_three_sources 0 = ''Primary''
   \<and> resolveCost mapping_fallbacks row_three_sources 0 = Fin 100
   \<and> resolveName mapping_fallbacks row_primary_cleared 0 = ''Fallback''
   \<and> resolveCost mapping_fallbacks row_primary_cleared 0 = Fin 200"
proof -
  have fields:
    "nameField mapping_fallbacks = ''Desc''" "costField mapping_fallbacks = ''Net''"
    "nameFallbackFields mapping_fallbacks = Some [''Alt'']"
    "costFallbackFields mapping_fallbacks = Some [''List'']"
    "manualRetag mapping_fallbacks 0 = None"
    "nameField mapping_fallbacks_retag = ''Desc''" "costField mapping_fallbacks_retag = ''Net''"
    "nameFallbackFields mapping_fallbacks_retag = Some [''Alt'']"
    "costFallbackFields mapping_fallbacks_retag = Some [''List'']"
    "manualRetag mapping_fallbacks_retag 0 = Some retag_manual"
    by (simp_all add: mapping_fallbacks_retag_def mapping_fallbacks_def mapping_Desc_Net_def
        manualRetag_def)
  have cells:
    "map_of row_three_sources ''Desc'' = Some (Str ''Primary'')"
    "map_of row_three_sources ''Alt'' = Some (Str ''Fallback'')"
    "map_of row_three_sources ''Net'' = Some (Str ''100'')"
    "map_of row_three_sources ''List'' = Some (Str ''200'')"
    "map_of row_primary_cleared ''Desc'' = Some (Str [])"
    "map_of row_primary_cleared ''Alt'' = Some (Str ''Fallback'')"
    "map_of row_primary_cleared ''Net'' = Some (Str [])"
    "map_of row_primary_cleared ''List'' = Some (Str ''200'')"
    by (simp_all add: row_three_sources_def row_primary_cleared_def)
  note facts = fields cells normalizeText_samples parsePrice_samples normalizeText_empty
    normalizeText_undefined orEmpty_def retag_manual_def Let_def
  from resolver_priority_chain [of mapping_fallbacks_retag row_three_sources 0]
  have 1: "resolveName mapping_fallbacks_retag row_three_sources 0 = ''Manual''
      \<and> resolveCost mapping_fallbacks_retag row_three_sources 0 = Fin 5"
    by (simp add: facts)
  from resolver_priority_chain [of mapping_fallbacks row_three_sources 0]
  have 2: "resolveName mapping_fallbacks row_three_sources 0 = ''Primary''
      \<and> resolveCost mapping_fallbacks row_three_sources 0 = Fin 100"
    by (simp add: facts)
  from resolver_priority_chain [of mapping_fallbacks row_primary_cleared 0]
  have 3: "resolveName mapping_fallbacks row_primary_cleared 0 = ''Fallback''
      \<and> resolveCost mapping_fallbacks row_primary_cleared 0 = Fin 200"
    by (simp add: facts)
  from 1 2 3 show ?thesis by simp
qed

section \<open>The grouping loop\<close>

lemma groups_invD:
  assumes "groups_inv allKeys (groups, assigned)"
  shows "assigned = set (concat (map snd groups))"
    and "distinct (concat (map snd groups))"
    and "assigned \<subseteq> set allKeys"
    and "\<forall>(c, vs) \<in> set groups. \<exists>rest pre post.
              vs = c # rest \<and> allKeys = pre @ c # post \<and> set rest \<subseteq> set post"
    and "\<forall>c \<in> fst ` set groups. \<forall>k \<in> set allKeys.
              75 / 100 \<le> similarityScore c k \<longrightarrow> k \<in> assigned"
    and "\<forall>c \<in> fst ` set groups. \<forall>c' \<in> fst ` set groups.
              c \<noteq> c' \<longrightarrow> \<not> 75 / 100 \<le> similarityScore c c'"
  using assms unfolding groups_inv_def prod.case by - (elim conjE, assumption)+

lemma scanKey_assigned:
  "snd (foldl (scanKey key) (grp, assigned) ks)
     = assigned \<union> {k \<in> set ks. 75 / 100 \<le> similarityScore key k}"
  by (induction ks arbitrary: grp assigned) (auto simp add: scanKey_def Let_def)

lemma scanKey_group:
  "\<exists>new. fst (foldl (scanKey key) (grp, assigned) ks) = grp @ new \<and> distinct new
     \<and> set new = {k \<in> set ks. 75 / 100 \<le> similarityScore key k} - assigned"
proof (induction ks arbitrary: grp assigned)
  case Nil
  then show ?case by simp
next
  case (Cons k ks)
  show ?case
  proof (cases "k \<notin> assigned \<and> 75 / 100 \<le> similarityScore key k")
    case True
    from Cons.IH [of "grp @ [k]" "insert k assigned"] obtain new where new:
      "fst (foldl (scanKey key) (grp @ [k], insert k assigned) ks) = (grp @ [k]) @ new"
      "distinct new"
      "set new = {k \<in> set ks. 75 / 100 \<le> similarityScore key k} - insert k assigned"
      by blast
    have "fst (foldl (scanKey key) (grp, assigned) (k # ks)) = grp @ (k # new)"
      using True new(1) by (simp add: scanKey_def)
    moreover have "distinct (k # new)"
      using new(2,3) by auto
    moreover have "set (k # new)
        = {k' \<in> set (k # ks). 75 / 100 \<le> similarityScore key k'} - assigned"
      using True new(3) by auto
    ultimately show ?thesis by blast
  next
    case False
    from Cons.IH [of grp assigned] obtain new where new:
      "fst (foldl (scanKey key) (grp, assigned) ks) = grp @ new"
      "distinct new"
      "set new = {k \<in> set ks. 75 / 100 \<le> similarityScore key k} - assigned"
      by blast
    have "fst (foldl (scanKey key) (grp, assigned) (k # ks)) = grp @ new"
      using False new(1) by (auto simp add: scanKey_def)
    moreover have "set new = {k' \<in> set (k # ks). 75 / 100 \<le> similarityScore key k'} - assigned"
      using False new(3) by auto
    ultimately show ?thesis using new(2) by blast
  qed
qed

lemma update_fresh: "k \<notin> fst ` set al \<Longrightarrow> AList.update k v al = al @ [(k, v)]"
  by (induction al) auto

lemma openGroup_assigned_key: "key \<in> snd (openGroup allKeys (groups, assigned) key)"
  by (auto simp add: openGroup_def scanKey_assigned split: prod.splits
      dest: arg_cong [where f = snd])

lemma openGroup_assigned_mono: "assigned \<subseteq> snd (openGroup allKeys (groups, assigned) key)"
  by (auto simp add: openGroup_def scanKey_assigned split: prod.splits
      dest: arg_cong [where f = snd])

lemma openGroup_inv:
  assumes inv: "groups_inv allKeys (groups, assigned)"
    and split: "allKeys = pre @ key # post"
    and pre: "set pre \<subseteq> assigned"
  shows "groups_inv allKeys (openGroup allKeys (groups, assigned) key)"
proof (cases "key \<in> assigned")
  case True
  with inv show ?thesis by (simp add: openGroup_def)
next
  case False
  let ?S = "{k \<in> set allKeys. 75 / 100 \<le> similarityScore key k}"
  from scanKey_group [of key "[key]" "insert key assigned" allKeys] obtain new where new:
    "fst (foldl (scanKey key) ([key], insert key assigned) allKeys) = [key] @ new"
    "distinct new" "set new = ?S - insert key assigned"
    by blast
  have snd_eq: "snd (foldl (scanKey key) ([key], insert key assigned) allKeys)
      = insert key assigned \<union> ?S"
    by (rule scanKey_assigned)
  note A = groups_invD(1) [OF inv] and D = groups_invD(2) [OF inv]
    and sub = groups_invD(3) [OF inv] and shape = groups_invD(4) [OF inv]
    and closed = groups_invD(5) [OF inv] and apart = groups_invD(6) [OF inv]
  have canon_assigned: "fst ` set groups \<subseteq> assigned"
  proof
    fix c assume "c \<in> fst ` set groups"
    then obtain vs where g: "(c, vs) \<in> set groups" by auto
    with shape obtain rest where "vs = c # rest" by fastforce
    with g show "c \<in> assigned" unfolding A by force
  qed
  with False have fresh: "key \<notin> fst ` set groups" by blast
  have result: "openGroup allKeys (groups, assigned) key
      = (groups @ [(key, key # new)], insert key assigned \<union> ?S)"
    using False new(1) snd_eq
    by (simp add: openGroup_def update_fresh [OF fresh] split: prod.splits) (metis fst_conv snd_conv)
  have new_post: "set new \<subseteq> set post"
    using new(3) split pre by auto
  have 1: "insert key assigned \<union> ?S = set (concat (map snd (groups @ [(key, key # new)])))"
    using new(3) A by auto
  have 2: "distinct (concat (map snd (groups @ [(key, key # new)])))"
    using D new(2,3) False A by auto
  have 3: "insert key assigned \<union> ?S \<subseteq> set allKeys"
    using sub split by auto
  have 4: "\<forall>(c, vs) \<in> set (groups @ [(key, key # new)]). \<exists>rest pre post.
              vs = c # rest \<and> allKeys = pre @ c # post \<and> set rest \<subseteq> set post"
    using shape split new_post by auto
  have 5: "\<forall>c \<in> fst ` set (groups @ [(key, key # new)]). \<forall>k \<in> set allKeys.
              75 / 100 \<le> similarityScore c k \<longrightarrow> k \<in> insert key assigned \<union> ?S"
    using closed by auto
  have key_in: "key \<in> set allKeys"
    using split by simp
  have key_apart: "\<not> 75 / 100 \<le> similarityScore c key" if "c \<in> fst ` set groups" for c
    using that closed False key_in by blast
  have 6: "\<forall>c \<in> fst ` set (groups @ [(key, key # new)]).
        \<forall>c' \<in> fst ` set (groups @ [(key, key # new)]).
              c \<noteq> c' \<longrightarrow> \<not> 75 / 100 \<le> similarityScore c c'"
  proof (intro ballI impI)
    fix c c'
    assume c: "c \<in> fst ` set (groups @ [(key, key # new)])"
      and c': "c' \<in> fst ` set (groups @ [(key, key # new)])" and ne: "c \<noteq> c'"
    from c have c_cases: "c \<in> fst ` set groups \<or> c = key" by auto
    from c' have c'_cases: "c' \<in> fst ` set groups \<or> c' = key" by auto
    show "\<not> 75 / 100 \<le> similarityScore c c'"
    proof (cases "c = key")
      case True
      with ne c'_cases have "c' \<in> fst ` set groups" by auto
      then have "\<not> 75 / 100 \<le> similarityScore c' key" by (rule key_apart)
      with True show ?thesis using similarityScore_swap [of key c'] by simp
    next
      case c_old: False
      with c_cases have cg: "c \<in> fst ` set groups" by simp
      show ?thesis
      proof (cases "c' = key")
        case True
        with key_apart [OF cg] show ?thesis by simp
      next
        case False
        with c'_cases have "c' \<in> fst ` set groups" by simp
        with apart cg ne show ?thesis by blast
      qed
    qed
  qed
  show ?thesis
    unfolding result groups_inv_def prod.case
    by (intro conjI) (fact 1 2 3 4 5 6)+
qed

lemma buildGroups_loop:
  assumes "allKeys = done @ todo"
  shows "groups_inv allKeys (foldl (openGroup allKeys) ([], {}) done)
       \<and> set done \<subseteq> snd (foldl (openGroup allKeys) ([], {}) done)"
  using assms
proof (induction "done" arbitrary: todo rule: rev_induct)
  case Nil
  show ?case by (simp add: groups_inv_def)
next
  case (snoc key ks)
  obtain groups assigned where st: "foldl (openGroup allKeys) ([], {}) ks = (groups, assigned)"
    by (cases "foldl (openGroup allKeys) ([], {}) ks") auto
  from snoc.prems have split: "allKeys = ks @ key # todo" by simp
  from snoc.IH [OF split] st have inv: "groups_inv allKeys (groups, assigned)"
    and pre: "set ks \<subseteq> assigned"
    by simp_all
  have "groups_inv allKeys (openGroup allKeys (groups, assigned) key)"
    by (rule openGroup_inv [OF inv split pre])
  moreover have "set (ks @ [key]) \<subseteq> snd (openGroup allKeys (groups, assigned) key)"
    using pre openGroup_assigned_key [of key allKeys groups assigned]
      openGroup_assigned_mono [of assigned allKeys groups key] by auto
  ultimately show ?case by (simp add: st)
qed

lemma buildGroups_inv:
  "groups_inv allKeys (buildGroups allKeys, set allKeys)"
proof -
  obtain groups assigned where st:
    "foldl (openGroup allKeys) ([], {}) allKeys = (groups, assigned)"
    by (cases "foldl (openGroup allKeys) ([], {}) allKeys") auto
  from buildGroups_loop [of allKeys allKeys "[]"] st
  have inv: "groups_inv allKeys (groups, assigned)" and sub: "set allKeys \<subseteq> assigned"
    by simp_all
  from inv have "assigned \<subseteq> set allKeys"
    by (rule groups_invD(3))
  with sub have "assigned = set allKeys" by blast
  with inv st show ?thesis by (simp add: buildGroups_def)
qed

lemma setFrom_set: "set (setFrom seen xs) = set seen \<union> set xs"
  by (induction xs arbitrary: seen) auto

lemma setFrom_distinct: "distinct seen \<Longrightarrow> distinct (setFrom seen xs)"
  by (induction xs arbitrary: seen) auto

lemma allKeysOf_set: "set (allKeysOf rws) = (\<Union>r \<in> set rws. fst ` set r)"
  by (simp add: allKeysOf_def setFrom_set)

lemma allKeysOf_distinct: "distinct (allKeysOf rws)"
  by (simp add: allKeysOf_def setFrom_distinct)

lemma groups_inv_unique:
  assumes inv: "groups_inv allKeys (groups, set allKeys)" and k: "k \<in> set allKeys"
  shows "\<exists>!g. g \<in> set groups \<and> k \<in> set (snd g)"
proof -
  note A = groups_invD(1) [OF inv] and D = groups_invD(2) [OF inv]
    and shape = groups_invD(4) [OF inv]
  from k A obtain g where g: "g \<in> set groups" "k \<in> set (snd g)" by auto
  have "g' = g" if g': "g' \<in> set groups" "k \<in> set (snd g')" for g'
  proof (rule ccontr)
    assume ne: "g' \<noteq> g"
    from shape g(1) g'(1) have hd: "snd g = fst g # tl (snd g)" "snd g' = fst g' # tl (snd g')"
      by (auto simp add: case_prod_beta)
    with ne have "snd g' \<noteq> snd g"
      by (metis list.inject prod.expand)
    moreover from D have "\<And>ys zs. ys \<in> set (map snd groups) \<Longrightarrow> zs \<in> set (map snd groups)
        \<Longrightarrow> ys \<noteq> zs \<Longrightarrow> set ys \<inter> set zs = {}"
      by (simp add: distinct_concat_iff)
    ultimately have "set (snd g') \<inter> set (snd g) = {}"
      using g(1) g'(1) by (metis image_eqI list.set_map)
    with g(2) g'(2) show False by blast
  qed
  with g show ?thesis by blast
qed

lemma batch_prices_groups:
  "buildGroups (allKeysOf batch_prices) =
     [(''Cost Price'', [''Cost Price'', ''Dealer Price'']), (''Name'', [''Name'']),
      (''SRP Price'', [''SRP Price''])]"
  by code_simp

lemma batch_prices_harmonized:
  "harmonizeColumnNames batch_prices =
     Inr [[(''Cost Price'', Str ''1''), (''Name'', Str ''a'')],
          [(''Cost Price'', Str ''2''), (''SRP Price'', Str ''3'')],
          []]"
  by code_simp

text \<open>
  C6. The groups built for a batch partition its header keys: every key of a row of the batch
  is in exactly one group, a group holds only keys of the batch, and every group starts with
  its canonical key, which occurs in \<open>allKeys\<close> before every other member of the group:
  the canonical key is the first key, in first-seen order, of its group.
\<close>

theorem buildGroups_partition:
  "(\<forall>r \<in> set rws. \<forall>k \<in> fst ` set r.
      \<exists>!g. g \<in> set (buildGroups (allKeysOf rws)) \<and> k \<in> set (snd g))
   \<and> (\<forall>g \<in> set (buildGroups (allKeysOf rws)). set (snd g) \<subseteq> (\<Union>r \<in> set rws. fst ` set r))
   \<and> (\<forall>(c, vs) \<in> set (buildGroups (allKeysOf rws)). \<exists>rest pre post.
        vs = c # rest \<and> allKeysOf rws = pre @ c # post \<and> c \<notin> set pre \<and> set rest \<subseteq> set post)"
proof -
  let ?K = "allKeysOf rws"
  let ?G = "buildGroups ?K"
  have inv: "groups_inv ?K (?G, set ?K)" by (rule buildGroups_inv)
  note A = groups_invD(1) [OF inv] and shape = groups_invD(4) [OF inv]
  have 1: "\<forall>r \<in> set rws. \<forall>k \<in> fst ` set r. \<exists>!g. g \<in> set ?G \<and> k \<in> set (snd g)"
  proof (intro ballI)
    fix r k assume "r \<in> set rws" "k \<in> fst ` set r"
    then have "k \<in> set ?K" unfolding allKeysOf_set by blast
    then show "\<exists>!g. g \<in> set ?G \<and> k \<in> set (snd g)"
      by (rule groups_inv_unique [OF inv])
  qed
  have 2: "\<forall>g \<in> set ?G. set (snd g) \<subseteq> (\<Union>r \<in> set rws. fst ` set r)"
    using A unfolding allKeysOf_set [symmetric] by auto
  have 3: "\<forall>(c, vs) \<in> set ?G. \<exists>rest pre post.
        vs = c # rest \<and> ?K = pre @ c # post \<and> c \<notin> set pre \<and> set rest \<subseteq> set post"
  proof (clarify)
    fix c vs assume "(c, vs) \<in> set ?G"
    with shape obtain rest pre post where
      s: "vs = c # rest" "?K = pre @ c # post" "set rest \<subseteq> set post"
      by fastforce
    from allKeysOf_distinct [of rws] s(2) have "c \<notin> set pre"
      by (metis disjoint_iff distinct_append list.set_intros(1))
    with s show "\<exists>rest pre post.
        vs = c # rest \<and> ?K = pre @ c # post \<and> c \<notin> set pre \<and> set rest \<subseteq> set post"
      by blast
  qed
  from 1 2 3 show ?thesis by blast
qed

theorem buildGroups_partition_witness:
  "[(''Dealer Price'', Str ''2''), (''SRP Price'', Str ''3'')] \<in> set batch_prices
   \<and> buildGroups (allKeysOf batch_prices) =
       [(''Cost Price'', [''Cost Price'', ''Dealer Price'']), (''Name'', [''Name'']),
        (''SRP Price'', [''SRP Price''])]
   \<and> (\<exists>!g. g \<in> set (buildGroups (allKeysOf batch_prices)) \<and> ''Dealer Price'' \<in> set (snd g))
   \<and> (\<exists>rest pre post. [''Cost Price'', ''Dealer Price''] = ''Cost Price'' # rest
        \<and> allKeysOf batch_prices = pre @ ''Cost Price'' # post \<and> ''Cost Price'' \<notin> set pre
        \<and> set rest \<subseteq> set post)"
proof -
  have r: "[(''Dealer Price'', Str ''2''), (''SRP Price'', Str ''3'')] \<in> set batch_prices"
    by (simp add: batch_prices_def)
  have k: "''Dealer Price'' \<in> fst ` set [(''Dealer Price'', Str ''2''), (''SRP Price'', Str ''3'')]"
    by simp
  have g: "(''Cost Price'', [''Cost Price'', ''Dealer Price''])
      \<in> set (buildGroups (allKeysOf batch_prices))"
    by (simp add: batch_prices_groups)
  from buildGroups_partition [of batch_prices] r k
  have "\<exists>!g. g \<in> set (buildGroups (allKeysOf batch_prices)) \<and> ''Dealer Price'' \<in> set (snd g)"
    by blast
  moreover from buildGroups_partition [of batch_prices] g
  have "\<exists>rest pre post. [''Cost Price'', ''Dealer Price''] = ''Cost Price'' # rest
        \<and> allKeysOf batch_prices = pre @ ''Cost Price'' # post \<and> ''Cost Price'' \<notin> set pre
        \<and> set rest \<subseteq> set post"
    by fast
  ultimately show ?thesis
    using r batch_prices_groups by simp
qed

section \<open>The canonical keys of a batch\<close>

lemma allKeysOf_empty: "allKeysOf rws = [] \<Longrightarrow> r \<in> set rws \<Longrightarrow> r = []"
proof -
  assume "allKeysOf rws = []" and r: "r \<in> set rws"
  then have "(\<Union>r \<in> set rws. fst ` set r) = {}"
    by (simp add: allKeysOf_set [symmetric])
  with r show "r = []" by auto
qed

lemma setFrom_append: "setFrom seen (xs @ ys) = setFrom (setFrom seen xs) ys"
  by (induction xs arbitrary: seen) simp_all

lemma setFrom_extends: "\<exists>t. setFrom seen xs = seen @ t"
proof (induction xs arbitrary: seen)
  case Nil
  show ?case by simp
next
  case (Cons x xs)
  show ?case
  proof (cases "x \<in> set seen")
    case True
    with Cons.IH [of seen] show ?thesis by simp
  next
    case False
    from Cons.IH [of "seen @ [x]"] obtain t where "setFrom (seen @ [x]) xs = (seen @ [x]) @ t"
      by blast
    with False have "setFrom seen (x # xs) = seen @ (x # t)" by simp
    then show ?thesis by blast
  qed
qed

lemma setFrom_distinct_list:
  assumes "distinct xs"
  shows "setFrom seen xs = seen @ filter (\<lambda>x. x \<notin> set seen) xs"
  using assms
proof (induction xs arbitrary: seen)
  case Nil
  show ?case by simp
next
  case (Cons x xs)
  from Cons.prems have d: "distinct xs" and x: "x \<notin> set xs" by simp_all
  show ?case
  proof (cases "x \<in> set seen")
    case True
    with Cons.IH [OF d, of seen] show ?thesis by simp
  next
    case False
    have "filter (\<lambda>y. y \<notin> set (seen @ [x])) xs = filter (\<lambda>y. y \<notin> set seen) xs"
      using x by (intro filter_cong) auto
    with Cons.IH [OF d, of "seen @ [x]"] False show ?thesis by simp
  qed
qed

lemma openGroup_cases:
  "openGroup allKeys (groups, assigned) key = (groups, assigned)
   \<or> (\<exists>grp assigned'.
        openGroup allKeys (groups, assigned) key = (AList.update key grp groups, assigned'))"
  by (cases "foldl (scanKey key) ([key], insert key assigned) allKeys")
     (auto simp add: openGroup_def)

lemma buildGroups_order_loop:
  assumes d: "distinct allKeys" and split: "allKeys = done @ todo"
  shows "map fst (fst (foldl (openGroup allKeys) ([], {}) done))
           = filter (\<lambda>k. k \<in> fst ` set (fst (foldl (openGroup allKeys) ([], {}) done))) done
       \<and> fst ` set (fst (foldl (openGroup allKeys) ([], {}) done)) \<subseteq> set done"
  using split
proof (induction "done" arbitrary: todo rule: rev_induct)
  case Nil
  show ?case by simp
next
  case (snoc key ks)
  obtain groups assigned where st: "foldl (openGroup allKeys) ([], {}) ks = (groups, assigned)"
    by (cases "foldl (openGroup allKeys) ([], {}) ks") auto
  from snoc.prems have split': "allKeys = ks @ key # todo" by simp
  from snoc.IH [OF split'] st have ord: "map fst groups = filter (\<lambda>k. k \<in> fst ` set groups) ks"
    and sub: "fst ` set groups \<subseteq> set ks"
    by simp_all
  from d split' have fresh: "key \<notin> set ks" by auto
  with sub have new: "key \<notin> fst ` set groups" by blast
  from openGroup_cases [of allKeys groups assigned key] show ?case
  proof
    assume same: "openGroup allKeys (groups, assigned) key = (groups, assigned)"
    from ord new sub show ?thesis
      by (auto simp add: st same)
  next
    assume "\<exists>grp assigned'.
        openGroup allKeys (groups, assigned) key = (AList.update key grp groups, assigned')"
    then obtain grp assigned' where
      "openGroup allKeys (groups, assigned) key = (AList.update key grp groups, assigned')"
      by blast
    then have upd: "openGroup allKeys (groups, assigned) key = (groups @ [(key, grp)], assigned')"
      by (simp add: update_fresh [OF new])
    have "filter (\<lambda>k. k \<in> fst ` set (groups @ [(key, grp)])) ks
        = filter (\<lambda>k. k \<in> fst ` set groups) ks"
      using fresh by (intro filter_cong) auto
    with ord sub show ?thesis
      by (auto simp add: st upd)
  qed
qed

lemma buildGroups_order:
  assumes "distinct allKeys"
  shows "map fst (buildGroups allKeys)
       = filter (\<lambda>k. k \<in> fst ` set (buildGroups allKeys)) allKeys"
  using buildGroups_order_loop [OF assms, of allKeys "[]"] by (simp add: buildGroups_def)

lemma filter_prefix_members:
  assumes "distinct (as @ bs)"
  shows "filter (\<lambda>x. x \<in> set as) (filter q (as @ bs)) = filter q as"
proof -
  have "filter (\<lambda>x. x \<in> set as) (filter q as) = filter q as"
    by (induction as) auto
  moreover have "filter (\<lambda>x. x \<in> set as) (filter q bs) = []"
    using assms by (auto simp add: filter_empty_conv)
  ultimately show ?thesis by simp
qed

lemma before_in_prefix:
  assumes d: "distinct ks" and p: "ks = ps @ ts" and c: "ks = pre @ c # post"
    and v: "v \<in> set post" "v \<in> set ps"
  shows "c \<in> set ps"
proof (rule ccontr)
  assume "c \<notin> set ps"
  from p c have "ps @ ts = pre @ c # post" by simp
  then obtain us where "(ps = pre @ us \<and> us @ ts = c # post) \<or> (ps @ us = pre \<and> ts = us @ c # post)"
    by (auto simp add: append_eq_append_conv2)
  then show False
  proof
    assume a: "ps = pre @ us \<and> us @ ts = c # post"
    show False
    proof (cases us)
      case Nil
      with a have "ps = pre" "ts = c # post" by simp_all
      with v p d show False by auto
    next
      case (Cons u us')
      with a have "c \<in> set ps" by auto
      with \<open>c \<notin> set ps\<close> show False by simp
    qed
  next
    assume "ps @ us = pre \<and> ts = us @ c # post"
    then have "set ps \<subseteq> set pre" by auto
    with v have "v \<in> set pre" by blast
    with v(1) d c show False by auto
  qed
qed

lemma readVariant_present:
  "readVariant item variants \<noteq> None \<longleftrightarrow> (\<exists>v \<in> set variants. v \<in> fst ` set item)"
proof (cases "find (\<lambda>variant. map_of item variant \<noteq> None) variants")
  case None
  then have "\<forall>v \<in> set variants. map_of item v = None"
    by (simp add: find_None_iff)
  then have "\<forall>v \<in> set variants. v \<notin> fst ` set item"
    by (simp add: map_of_eq_None_iff)
  with None show ?thesis by (auto simp add: readVariant_def)
next
  case (Some v)
  then have v: "v \<in> set variants" "map_of item v \<noteq> None"
    by (auto simp add: find_Some_iff)
  then have "v \<in> fst ` set item"
    by (simp add: map_of_eq_None_iff)
  with v Some show ?thesis by (auto simp add: readVariant_def)
qed

lemma sublist_as_filter:
  assumes "distinct (map f xs)"
  shows "map f (filter q xs) = filter (\<lambda>y. y \<in> f ` set (filter q xs)) (map f xs)"
  using assms
proof (induction xs)
  case Nil
  show ?case by simp
next
  case (Cons x xs)
  from Cons.prems have d: "distinct (map f xs)" and x: "f x \<notin> f ` set xs" by simp_all
  have rest: "filter (\<lambda>y. y \<in> f ` set (filter q (x # xs))) (map f xs)
      = filter (\<lambda>y. y \<in> f ` set (filter q xs)) (map f xs)"
  proof (intro filter_cong refl)
    fix y assume "y \<in> set (map f xs)"
    then have "y \<in> f ` set xs" by simp
    with x have "y \<noteq> f x" by blast
    then show "(y \<in> f ` set (filter q (x # xs))) = (y \<in> f ` set (filter q xs))"
      by auto
  qed
  show ?case
  proof (cases "q x")
    case True
    with Cons.IH [OF d] rest show ?thesis by simp
  next
    case False
    have "f x \<notin> f ` set (filter q xs)" using x by auto
    with False Cons.IH [OF d] rest show ?thesis by simp
  qed
qed

lemma scanKey_noop:
  assumes "\<forall>k \<in> set ks. k \<in> assigned \<or> \<not> 75 / 100 \<le> similarityScore key k"
  shows "foldl (scanKey key) (grp, assigned) ks = (grp, assigned)"
  using assms by (induction ks) (auto simp add: scanKey_def Let_def)

lemma buildGroups_apart_loop:
  assumes d: "distinct allKeys"
    and apart: "\<forall>a \<in> set allKeys. \<forall>b \<in> set allKeys.
        a \<noteq> b \<longrightarrow> \<not> 75 / 100 \<le> similarityScore a b"
    and split: "allKeys = done @ todo"
  shows "foldl (openGroup allKeys) ([], {}) done = (map (\<lambda>k. (k, [k])) done, set done)"
  using split
proof (induction "done" arbitrary: todo rule: rev_induct)
  case Nil
  show ?case by simp
next
  case (snoc key ks)
  from snoc.prems have split': "allKeys = ks @ key # todo" by simp
  from snoc.IH [OF split'] have st:
    "foldl (openGroup allKeys) ([], {}) ks = (map (\<lambda>k. (k, [k])) ks, set ks)" .
  from d split' have fresh: "key \<notin> set ks" by auto
  from split' have key_in: "key \<in> set allKeys" by simp
  have "\<forall>k \<in> set allKeys. k \<in> insert key (set ks) \<or> \<not> 75 / 100 \<le> similarityScore key k"
  proof
    fix k assume k: "k \<in> set allKeys"
    show "k \<in> insert key (set ks) \<or> \<not> 75 / 100 \<le> similarityScore key k"
    proof (cases "k = key")
      case True
      then show ?thesis by simp
    next
      case False
      then have "key \<noteq> k" by simp
      with bspec [OF bspec [OF apart key_in] k] show ?thesis by simp
    qed
  qed
  then have scan: "foldl (scanKey key) ([key], insert key (set ks)) allKeys
      = ([key], insert key (set ks))"
    by (rule scanKey_noop)
  have "key \<notin> fst ` set (map (\<lambda>k. (k, [k])) ks)"
    using fresh by (auto simp add: image_iff)
  then have upd: "AList.update key [key] (map (\<lambda>k. (k, [k])) ks)
      = map (\<lambda>k. (k, [k])) ks @ [(key, [key])]"
    by (rule update_fresh)
  have "openGroup allKeys (map (\<lambda>k. (k, [k])) ks, set ks) key
      = (map (\<lambda>k. (k, [k])) (ks @ [key]), set (ks @ [key]))"
    using fresh by (simp add: openGroup_def scan upd)
  then show ?case by (simp add: st)
qed

lemma buildGroups_apart:
  assumes "distinct allKeys"
    and "\<forall>a \<in> set allKeys. \<forall>b \<in> set allKeys.
        a \<noteq> b \<longrightarrow> \<not> 75 / 100 \<le> similarityScore a b"
  shows "buildGroups allKeys = map (\<lambda>k. (k, [k])) allKeys"
  using buildGroups_apart_loop [OF assms, of allKeys "[]"] by (simp add: buildGroups_def)

lemma buildGroups_distinct: "distinct (map fst (buildGroups (allKeysOf rws)))"
proof -
  have "map fst (buildGroups (allKeysOf rws))
      = filter (\<lambda>k. k \<in> fst ` set (buildGroups (allKeysOf rws))) (allKeysOf rws)"
    by (rule buildGroups_order [OF allKeysOf_distinct])
  then show ?thesis
    using allKeysOf_distinct [of rws] by (metis distinct_filter)
qed

lemma buildGroups_first:
  assumes "allKeysOf rws \<noteq> []"
  shows "\<exists>c rest groups. buildGroups (allKeysOf rws) = (c, c # rest) # groups"
proof -
  let ?K = "allKeysOf rws"
  note inv = buildGroups_inv [of ?K]
  from groups_invD(1) [OF inv] assms have "concat (map snd (buildGroups ?K)) \<noteq> []"
    by (metis set_empty)
  then obtain g groups where G: "buildGroups ?K = g # groups"
    by (cases "buildGroups ?K") auto
  then have "g \<in> set (buildGroups ?K)" by simp
  with groups_invD(4) [OF inv] obtain rest where "snd g = fst g # rest"
    by (fastforce simp add: case_prod_beta)
  then have "g = (fst g, fst g # rest)" by (metis prod.collapse)
  with G show ?thesis by metis
qed

section \<open>The rewritten rows\<close>

lemma firstVariant_safe:
  assumes "map_of item ''hasOwnProperty'' = None"
  shows "firstVariant item variants = Inr (find (\<lambda>variant. map_of item variant \<noteq> None) variants)"
  using assms by (induction variants) (simp_all add: hasOwnProperty_def)

lemma firstVariant_unsafe:
  assumes "map_of item ''hasOwnProperty'' \<noteq> None"
  shows "firstVariant item (variant # variants) = Inl TypeError"
  using assms by (simp add: hasOwnProperty_def)

lemma find_property:
  assumes "find (\<lambda>variant. map_of item variant \<noteq> None) variants = Some variant"
  shows "map_of item variant \<noteq> None"
  using assms by (auto simp add: find_Some_iff)

lemma copyVariant_safe:
  assumes safe: "map_of item ''hasOwnProperty'' = None"
    and fresh: "fst g \<notin> fst ` set normalized"
  shows "copyVariant item normalized g = Inr (normalized @ groupEntry item g)"
proof (cases g)
  case (Pair c vs)
  with fresh have c: "c \<notin> fst ` set normalized" by simp
  show ?thesis
  proof (cases "find (\<lambda>variant. map_of item variant \<noteq> None) vs")
    case None
    with Pair show ?thesis
      by (simp add: copyVariant_def firstVariant_safe [OF safe] groupEntry_def readVariant_def)
  next
    case (Some variant)
    from find_property [OF Some] obtain v where v: "map_of item variant = Some v"
      by auto
    show ?thesis
    proof (cases "c = ''__proto__''")
      case True
      with Pair Some v show ?thesis
        by (simp add: copyVariant_def firstVariant_safe [OF safe] groupEntry_def assign_def)
    next
      case False
      with Pair Some v show ?thesis
        by (simp add: copyVariant_def firstVariant_safe [OF safe] groupEntry_def readVariant_def
            assign_def update_fresh [OF c])
    qed
  qed
qed

lemma groupEntry_keys: "p \<in> set (groupEntry item g) \<Longrightarrow> fst p = fst g"
  by (cases "readVariant item (snd g)") (simp_all add: groupEntry_def split: if_splits)

lemma groupEntry_values: "p \<in> set (groupEntry item g) \<Longrightarrow> snd p \<in> snd ` set item"
proof -
  assume p: "p \<in> set (groupEntry item g)"
  then obtain v where v: "readVariant item (snd g) = Some v" "p = (fst g, v)"
    by (cases "readVariant item (snd g)") (simp_all add: groupEntry_def split: if_splits)
  then obtain variant where "map_of item variant = Some v"
    by (auto simp add: readVariant_def split: option.splits)
  then have "(variant, v) \<in> set item" by (rule map_of_SomeD)
  then have "v \<in> snd ` set item" by force
  with v(2) show ?thesis by simp
qed

lemma entries_keys:
  assumes "k \<in> fst ` set (rowEntries groups item)"
  shows "k \<in> fst ` set groups"
proof -
  from assms obtain p where p: "p \<in> set (rowEntries groups item)" "k = fst p"
    by blast
  then obtain g where g: "g \<in> set groups" "p \<in> set (groupEntry item g)"
    by (auto simp add: rowEntries_def)
  from groupEntry_keys [OF g(2)] p(2) g(1) show ?thesis by simp
qed

lemma entries_values:
  assumes "v \<in> snd ` set (rowEntries groups item)"
  shows "v \<in> snd ` set item"
proof -
  from assms obtain p where p: "p \<in> set (rowEntries groups item)" "v = snd p"
    by blast
  then obtain g where "p \<in> set (groupEntry item g)"
    by (auto simp add: rowEntries_def)
  from groupEntry_values [OF this] p(2) show ?thesis by simp
qed

lemma rowEntries_Cons: "rowEntries (g # groups) item = groupEntry item g @ rowEntries groups item"
  by (simp add: rowEntries_def)

lemma rewriteLoop_safe:
  assumes safe: "map_of item ''hasOwnProperty'' = None"
    and "distinct (map fst groups)" and "fst ` set normalized \<inter> fst ` set groups = {}"
  shows "rewriteLoop item normalized groups = Inr (normalized @ rowEntries groups item)"
  using assms(2,3)
proof (induction groups arbitrary: normalized)
  case Nil
  show ?case by (simp add: rowEntries_def)
next
  case (Cons g groups)
  from Cons.prems(2) have fresh: "fst g \<notin> fst ` set normalized" by auto
  have step: "copyVariant item normalized g = Inr (normalized @ groupEntry item g)"
    by (rule copyVariant_safe [OF safe fresh])
  from Cons.prems(1) have d: "distinct (map fst groups)" and g: "fst g \<notin> fst ` set groups"
    by auto
  have "k \<notin> fst ` set groups" if "k \<in> fst ` set (normalized @ groupEntry item g)" for k
  proof -
    from that have "k \<in> fst ` set normalized \<or> k \<in> fst ` set (groupEntry item g)"
      by auto
    then show ?thesis
    proof
      assume "k \<in> fst ` set normalized"
      with Cons.prems(2) show ?thesis by auto
    next
      assume "k \<in> fst ` set (groupEntry item g)"
      then obtain p where "p \<in> set (groupEntry item g)" "k = fst p" by blast
      with groupEntry_keys [of p item g] have "k = fst g" by simp
      with g show ?thesis by simp
    qed
  qed
  then have "fst ` set (normalized @ groupEntry item g) \<inter> fst ` set groups = {}"
    by blast
  from Cons.IH [OF d this] show ?case
    by (simp add: step rowEntries_Cons)
qed

lemma rewriteRow_safe:
  assumes "map_of item ''hasOwnProperty'' = None" and "distinct (map fst groups)"
  shows "rewriteRow groups item = Inr (rowEntries groups item)"
  using rewriteLoop_safe [OF assms, of "[]"] by (simp add: rewriteRow_def)

lemma rewriteRow_unsafe:
  assumes "map_of item ''hasOwnProperty'' \<noteq> None"
  shows "rewriteRow ((c, variant # variants) # groups) item = Inl TypeError"
  by (simp add: rewriteRow_def copyVariant_def firstVariant_unsafe [OF assms]
      del: firstVariant.simps)

lemma find_never: "find (\<lambda>_. False) xs = None"
  by (induction xs) simp_all

lemma groupEntry_no_headers: "groupEntry [] g = []"
  by (simp add: groupEntry_def readVariant_def find_never)

lemma rowEntries_no_headers: "rowEntries groups [] = []"
  by (induction groups) (simp_all add: rowEntries_def groupEntry_no_headers)

lemma error_TypeError: "(e :: error) = TypeError"
  by (cases e) simp

lemma mapRows_Inr:
  assumes "\<forall>r \<in> set rs. f r = Inr (g r)"
  shows "mapRows f rs = Inr (map g rs)"
  using assms by (induction rs) simp_all

lemma mapRows_Inl:
  assumes "r \<in> set rs" and "f r = Inl TypeError"
  shows "mapRows f rs = Inl TypeError"
  using assms
proof (induction rs)
  case Nil
  then show ?case by simp
next
  case (Cons x rs)
  show ?case
  proof (cases "f x")
    case (Inl e)
    then show ?thesis by (simp add: error_TypeError [of e])
  next
    case (Inr y)
    with Cons.prems have "r \<in> set rs" by auto
    from Cons.IH [OF this Cons.prems(2)] Inr show ?thesis by simp
  qed
qed

text \<open>
  The harmoniser on a batch without a header named \<open>hasOwnProperty\<close>, and on a batch with
  such a header.
\<close>

lemma harmonizeColumnNames_safe:
  assumes "\<forall>r \<in> set rws. map_of r ''hasOwnProperty'' = None"
  shows "harmonizeColumnNames rws =
     Inr (if rws = [] \<or> allKeysOf rws = [] then rws
          else map (rowEntries (buildGroups (allKeysOf rws))) rws)"
proof (cases "rws = [] \<or> allKeysOf rws = []")
  case True
  then show ?thesis by (auto simp add: harmonizeColumnNames_def)
next
  case False
  have "\<forall>r \<in> set rws. rewriteRow (buildGroups (allKeysOf rws)) r
      = Inr (rowEntries (buildGroups (allKeysOf rws)) r)"
    using assms by (auto intro: rewriteRow_safe buildGroups_distinct)
  then have "mapRows (rewriteRow (buildGroups (allKeysOf rws))) rws
      = Inr (map (rowEntries (buildGroups (allKeysOf rws))) rws)"
    by (rule mapRows_Inr)
  with False show ?thesis by (simp add: harmonizeColumnNames_def)
qed

lemma harmonizeColumnNames_unsafe:
  assumes r: "r \<in> set rws" and own: "map_of r ''hasOwnProperty'' \<noteq> None"
  shows "harmonizeColumnNames rws = Inl TypeError"
proof -
  from own have "''hasOwnProperty'' \<in> fst ` set r"
    by (simp add: map_of_eq_None_iff)
  with r have "''hasOwnProperty'' \<in> set (allKeysOf rws)"
    unfolding allKeysOf_set by blast
  then have ne: "allKeysOf rws \<noteq> []" by auto
  from r have ne': "rws \<noteq> []" by auto
  from buildGroups_first [OF ne] obtain c rest groups where
    G: "buildGroups (allKeysOf rws) = (c, c # rest) # groups"
    by blast
  have "rewriteRow (buildGroups (allKeysOf rws)) r = Inl TypeError"
    unfolding G by (rule rewriteRow_unsafe [OF own])
  with r have "mapRows (rewriteRow (buildGroups (allKeysOf rws))) rws = Inl TypeError"
    by (rule mapRows_Inl)
  with ne ne' show ?thesis by (simp add: harmonizeColumnNames_def)
qed

text \<open>
  C7. For every batch the harmoniser is to return as many rows as it is given, in the same
  order, every one with canonical keys only. On the one-row batch with the headers \<open>Name\<close>
  and \<open>hasOwnProperty\<close> it returns no rows at all: the call
  \<open>row.hasOwnProperty(variant)\<close> finds the cell of that header instead of the method and
  raises a \<open>TypeError\<close>.
\<close>

theorem harmonizeColumnNames_hasOwnProperty_header:
  "harmonizeColumnNames batch_hasOwnProperty = Inl TypeError"
proof (rule harmonizeColumnNames_unsafe)
  show "[(''Name'', Str ''a''), (''hasOwnProperty'', Str ''x'')] \<in> set batch_hasOwnProperty"
    by (simp add: batch_hasOwnProperty_def)
  show "map_of [(''Name'', Str ''a''), (''hasOwnProperty'', Str ''x'')] ''hasOwnProperty'' \<noteq> None"
    by simp
qed

text \<open>
  On a batch without such a header the harmoniser returns as many rows as the input has,
  row \<open>i\<close> with canonical keys only and with values of row \<open>i\<close> of the input only, and a
  row without headers stays without headers.
\<close>

lemma harmonizeColumnNames_shape:
  assumes "\<forall>r \<in> set rws. map_of r ''hasOwnProperty'' = None"
  shows "\<exists>out. harmonizeColumnNames rws = Inr out \<and> length out = length rws
     \<and> (\<forall>i < length rws.
          fst ` set (out ! i) \<subseteq> fst ` set (buildGroups (allKeysOf rws))
          \<and> snd ` set (out ! i) \<subseteq> snd ` set (rws ! i)
          \<and> (rws ! i = [] \<longrightarrow> out ! i = []))"
proof (cases "rws = [] \<or> allKeysOf rws = []")
  case True
  then have same: "harmonizeColumnNames rws = Inr rws"
    by (auto simp add: harmonizeColumnNames_def)
  have "rws ! i = []" if "i < length rws" for i
  proof -
    from that True have "allKeysOf rws = []" by auto
    then show ?thesis using that by (auto intro: allKeysOf_empty)
  qed
  then show ?thesis unfolding same by simp
next
  case False
  let ?G = "buildGroups (allKeysOf rws)"
  from False harmonizeColumnNames_safe [OF assms]
  have out: "harmonizeColumnNames rws = Inr (map (rowEntries ?G) rws)"
    by simp
  have "fst ` set (rowEntries ?G r) \<subseteq> fst ` set ?G" for r
    using entries_keys [of _ ?G r] by blast
  moreover have "snd ` set (rowEntries ?G r) \<subseteq> snd ` set r" for r
    using entries_values [of _ ?G r] by blast
  moreover have "rowEntries ?G [] = []"
    by (rule rowEntries_no_headers)
  ultimately show ?thesis
    unfolding out by simp
qed

section \<open>Harmonising twice\<close>

lemma entries_key_list:
  "map fst (rowEntries groups item)
     = map fst (filter (\<lambda>g. readVariant item (snd g) \<noteq> None \<and> fst g \<noteq> ''__proto__'') groups)"
proof (induction groups)
  case Nil
  show ?case by (simp add: rowEntries_def)
next
  case (Cons g groups)
  show ?case
  proof (cases "fst g = ''__proto__''")
    case True
    then have "groupEntry item g = []" by (simp add: groupEntry_def)
    with True Cons.IH show ?thesis by (simp add: rowEntries_Cons)
  next
    case False
    show ?thesis
    proof (cases "readVariant item (snd g)")
      case None
      with False have "groupEntry item g = []" by (simp add: groupEntry_def)
      with None Cons.IH show ?thesis by (simp add: rowEntries_Cons)
    next
      case (Some v)
      with False have "groupEntry item g = [(fst g, v)]" by (simp add: groupEntry_def)
      with False Some Cons.IH show ?thesis by (simp add: rowEntries_Cons)
    qed
  qed
qed

lemma rowEntries_proto:
  "rowEntries (filter (\<lambda>g. fst g \<noteq> ''__proto__'') groups) item = rowEntries groups item"
proof (induction groups)
  case Nil
  show ?case by simp
next
  case (Cons g groups)
  show ?case
  proof (cases "fst g = ''__proto__''")
    case True
    then have "groupEntry item g = []" by (simp add: groupEntry_def)
    with True Cons.IH show ?thesis by (simp add: rowEntries_Cons)
  next
    case False
    with Cons.IH show ?thesis by (simp add: rowEntries_Cons)
  qed
qed

lemma map_of_entries:
  assumes "distinct (map fst groups)" and "g \<in> set groups" and "fst g \<noteq> ''__proto__''"
  shows "map_of (rowEntries groups item) (fst g) = readVariant item (snd g)"
  using assms(1,2)
proof (induction groups)
  case Nil
  then show ?case by simp
next
  case (Cons h groups)
  from Cons.prems(1) have d: "distinct (map fst groups)" and h: "fst h \<notin> fst ` set groups"
    by auto
  show ?case
  proof (cases "g = h")
    case True
    show ?thesis
    proof (cases "readVariant item (snd h)")
      case None
      have "fst h \<notin> fst ` set (rowEntries groups item)"
        using h entries_keys [of "fst h" groups item] by blast
      then have "map_of (rowEntries groups item) (fst h) = None"
        by (simp add: map_of_eq_None_iff)
      moreover from None have "groupEntry item h = []"
        by (simp add: groupEntry_def)
      ultimately show ?thesis using None True by (simp add: rowEntries_Cons)
    next
      case (Some x)
      with True assms(3) have "groupEntry item h = [(fst h, x)]"
        by (simp add: groupEntry_def)
      with Some True show ?thesis by (simp add: rowEntries_Cons)
    qed
  next
    case False
    with Cons.prems(2) have gin: "g \<in> set groups" by simp
    then have "fst g \<in> fst ` set groups" by (rule imageI)
    with h have ne: "fst g \<noteq> fst h" by metis
    have "map_of (groupEntry item h) (fst g) = None"
      using ne by (cases "readVariant item (snd h)") (simp_all add: groupEntry_def)
    with Cons.IH [OF d gin] show ?thesis
      by (simp add: rowEntries_Cons map_add_def)
  qed
qed

lemma rowEntries_singles:
  assumes d: "distinct (map fst groups)"
  shows "rowEntries
           (map (\<lambda>k. (k, [k])) (map fst (filter (\<lambda>g. fst g \<noteq> ''__proto__'') groups)))
           (rowEntries groups item)
       = rowEntries groups item"
proof -
  let ?G' = "filter (\<lambda>g. fst g \<noteq> ''__proto__'') groups"
  let ?o = "rowEntries groups item"
  have single: "groupEntry ?o (fst g, [fst g]) = groupEntry item g" if "g \<in> set ?G'" for g
  proof -
    from that have g: "g \<in> set groups" and ok: "fst g \<noteq> ''__proto__''" by simp_all
    have "readVariant ?o [fst g] = map_of ?o (fst g)"
      by (simp add: readVariant_def)
    also have "\<dots> = readVariant item (snd g)"
      by (rule map_of_entries [OF d g ok])
    finally have "readVariant ?o [fst g] = readVariant item (snd g)" .
    with ok show ?thesis
      by (cases "readVariant item (snd g)") (simp_all add: groupEntry_def)
  qed
  have "rowEntries (map (\<lambda>k. (k, [k])) (map fst ?G')) ?o
      = concat (map (\<lambda>g. groupEntry ?o (fst g, [fst g])) ?G')"
    by (simp add: rowEntries_def comp_def)
  also have "\<dots> = concat (map (groupEntry item) ?G')"
  proof -
    have "map (\<lambda>g. groupEntry ?o (fst g, [fst g])) ?G' = map (groupEntry item) ?G'"
      by (rule map_cong [OF refl]) (rule single)
    then show ?thesis by (rule arg_cong)
  qed
  also have "\<dots> = rowEntries ?G' item"
    by (simp only: rowEntries_def)
  also have "\<dots> = ?o"
    by (rule rowEntries_proto)
  finally show ?thesis .
qed

lemma harmonized_allKeys_loop:
  fixes rws :: "RawExtractionItem list"
  defines "G \<equiv> buildGroups (allKeysOf rws)"
    and "G' \<equiv> filter (\<lambda>g. fst g \<noteq> ''__proto__'') (buildGroups (allKeysOf rws))"
  assumes split: "rws = rs @ later"
  shows "setFrom [] (concat (map (\<lambda>r. map fst (rowEntries G r)) rs))
       = filter (\<lambda>c. c \<in> set (allKeysOf rs)) (map fst G')"
  using split
proof (induction rs arbitrary: later rule: rev_induct)
  case Nil
  show ?case by (simp add: allKeysOf_def)
next
  case (snoc r rs)
  let ?K = "allKeysOf rws"
  let ?C = "map fst G'"
  let ?P = "allKeysOf rs"
  let ?P' = "allKeysOf (rs @ [r])"
  let ?f = "\<lambda>r. map fst (rowEntries G r)"
  have dK: "distinct ?K" by (simp add: allKeysOf_def setFrom_distinct)
  have G'_G: "G' = filter (\<lambda>g. fst g \<noteq> ''__proto__'') G"
    by (simp only: G'_def G_def)
  define q where "q = (\<lambda>k. k \<in> fst ` set G \<and> k \<noteq> ''__proto__'')"
  have ord: "?C = filter q ?K"
  proof -
    have A: "map fst G = filter (\<lambda>k. k \<in> fst ` set G) ?K"
      unfolding G_def by (rule buildGroups_order [OF dK])
    have B: "?C = filter (\<lambda>k. k \<noteq> ''__proto__'') (map fst G)"
      by (simp add: G'_G filter_map comp_def)
    from B have "?C = filter (\<lambda>k. k \<noteq> ''__proto__'') (filter (\<lambda>k. k \<in> fst ` set G) ?K)"
      by (simp only: A)
    then show ?thesis by (simp only: filter_filter q_def)
  qed
  have dC: "distinct ?C"
    using dK by (simp only: ord distinct_filter)
  have inv: "groups_inv ?K (G, set ?K)"
    unfolding G_def by (rule buildGroups_inv)
  note shape = groups_invD(4) [OF inv]
  from snoc.prems have split': "rws = rs @ (r # later)" by simp
  note IH = snoc.IH [OF split']
  \<comment> \<open>the keys seen so far form prefixes of \<open>allKeys\<close>\<close>
  have P'_def: "?P' = setFrom ?P (map fst r)"
    by (simp add: allKeysOf_def setFrom_append)
  then have P'_set: "set ?P' = set ?P \<union> fst ` set r"
    by (simp add: setFrom_set)
  from setFrom_extends [of ?P "map fst r"] P'_def obtain N where N: "?P' = ?P @ N"
    by auto
  have "?K = setFrom ?P' (concat (map (map fst) later))"
    using snoc.prems by (simp add: allKeysOf_def setFrom_append)
  with setFrom_extends [of ?P' "concat (map (map fst) later)"] obtain T where T: "?K = ?P' @ T"
    by auto
  from T N have K3: "?K = ?P @ (N @ T)" by simp
  \<comment> \<open>the keys of a rewritten row, as a filter of the canonical keys\<close>
  have keys_r: "?f r = map fst (filter (\<lambda>g. readVariant r (snd g) \<noteq> None) G')"
    by (simp add: entries_key_list G'_G conj_commute)
  have f_filter: "?f r = filter (\<lambda>c. c \<in> set (?f r)) ?C"
    unfolding keys_r list.set_map by (rule sublist_as_filter [OF dC])
  have d_f: "distinct (?f r)"
    using dC by (subst f_filter) simp
  \<comment> \<open>a canonical key not seen before is a key of the rewritten row iff it is a key of the row\<close>
  have iff: "(c \<in> set (?f r) \<and> c \<notin> set ?P) = (c \<in> set ?P' \<and> c \<notin> set ?P)"
    if c: "c \<in> set ?C" for c
  proof (cases "c \<in> set ?P")
    case True
    then show ?thesis by simp
  next
    case False
    from c obtain vs where g: "(c, vs) \<in> set G'" by auto
    then have "(c, vs) \<in> set G" by (simp add: G'_G)
    with shape obtain rest pre post where
      s: "vs = c # rest" "?K = pre @ c # post" "set rest \<subseteq> set post"
      by fastforce
    have only: "g' = (c, vs)" if "g' \<in> set G'" "fst g' = c" for g'
      using that g dC by (metis eq_key_imp_eq_value prod.collapse)
    have "c \<in> set (?f r) \<longleftrightarrow> readVariant r vs \<noteq> None"
    proof
      assume "c \<in> set (?f r)"
      then obtain g' where "g' \<in> set G'" "readVariant r (snd g') \<noteq> None" "fst g' = c"
        unfolding keys_r by auto
      with only [of g'] show "readVariant r vs \<noteq> None" by auto
    next
      assume "readVariant r vs \<noteq> None"
      with g have "(c, vs) \<in> set (filter (\<lambda>g. readVariant r (snd g) \<noteq> None) G')" by simp
      then show "c \<in> set (?f r)" unfolding keys_r by force
    qed
    also have "\<dots> \<longleftrightarrow> (\<exists>v \<in> set vs. v \<in> fst ` set r)"
      by (rule readVariant_present)
    also have "\<dots> \<longleftrightarrow> c \<in> fst ` set r"
    proof
      assume "\<exists>v \<in> set vs. v \<in> fst ` set r"
      then obtain v where v: "v \<in> set vs" "v \<in> fst ` set r" by blast
      show "c \<in> fst ` set r"
      proof (cases "v = c")
        case True
        with v show ?thesis by simp
      next
        case ne: False
        with v(1) s(1,3) have "v \<in> set post" by auto
        moreover from v(2) P'_set have "v \<in> set ?P'" by simp
        ultimately have "c \<in> set ?P'"
          by (rule before_in_prefix [OF dK T s(2)])
        with False P'_set show ?thesis by simp
      qed
    next
      assume "c \<in> fst ` set r"
      with s(1) show "\<exists>v \<in> set vs. v \<in> fst ` set r" by auto
    qed
    finally show ?thesis using False P'_set by simp
  qed
  \<comment> \<open>splitting the canonical keys along the prefixes\<close>
  have dPN: "distinct (?P @ N)" using dK T N by auto
  have CP: "filter (\<lambda>c. c \<in> set ?P) ?C = filter q ?P"
  proof -
    from dK K3 have "distinct (?P @ (N @ T))" by simp
    from filter_prefix_members [OF this, of q] show ?thesis
      by (simp only: ord K3 [symmetric])
  qed
  have CP': "filter (\<lambda>c. c \<in> set ?P') ?C = filter q ?P'"
  proof -
    from dK T have "distinct (?P' @ T)" by simp
    from filter_prefix_members [OF this, of q] show ?thesis
      by (simp only: ord T [symmetric])
  qed
  have "filter (\<lambda>c. c \<in> set ?P' \<and> c \<notin> set ?P) ?C
      = filter (\<lambda>c. c \<notin> set ?P) (filter (\<lambda>c. c \<in> set ?P') ?C)"
    by (simp add: conj_commute)
  also have "\<dots> = filter (\<lambda>c. c \<notin> set ?P) (filter q ?P')"
    by (simp only: CP')
  also have "\<dots> = filter (\<lambda>c. c \<notin> set ?P) (filter q (?P @ N))"
    by (simp only: N)
  also have "\<dots> = filter q N"
  proof -
    have "filter (\<lambda>c. c \<notin> set ?P) (filter q ?P) = []"
      by (simp add: filter_empty_conv)
    moreover have "filter (\<lambda>c. c \<notin> set ?P) (filter q N) = filter q N"
    proof -
      have "\<forall>c \<in> set (filter q N). c \<notin> set ?P"
        using dPN by auto
      then show ?thesis by (simp only: filter_id_conv)
    qed
    ultimately show ?thesis by simp
  qed
  finally have new: "filter (\<lambda>c. c \<in> set ?P' \<and> c \<notin> set ?P) ?C = filter q N" .
  \<comment> \<open>the step\<close>
  have "setFrom [] (concat (map ?f (rs @ [r]))) = setFrom (setFrom [] (concat (map ?f rs))) (?f r)"
    by (simp add: setFrom_append)
  also have "\<dots> = setFrom (filter (\<lambda>c. c \<in> set ?P) ?C) (?f r)"
    by (simp only: IH)
  also have "\<dots> = filter (\<lambda>c. c \<in> set ?P) ?C
      @ filter (\<lambda>c. c \<notin> set (filter (\<lambda>c. c \<in> set ?P) ?C)) (?f r)"
    by (rule setFrom_distinct_list [OF d_f])
  also have "filter (\<lambda>c. c \<notin> set (filter (\<lambda>c. c \<in> set ?P) ?C)) (?f r)
      = filter (\<lambda>c. c \<in> set (?f r) \<and> c \<notin> set ?P) ?C"
  proof -
    have "filter (\<lambda>c. c \<notin> set (filter (\<lambda>c. c \<in> set ?P) ?C)) (?f r)
        = filter (\<lambda>c. c \<notin> set (filter (\<lambda>c. c \<in> set ?P) ?C))
            (filter (\<lambda>c. c \<in> set (?f r)) ?C)"
      by (rule arg_cong [OF f_filter])
    also have "\<dots> = filter (\<lambda>c. c \<in> set (?f r) \<and> c \<notin> set ?P) ?C"
      unfolding filter_filter by (intro filter_cong) auto
    finally show ?thesis .
  qed
  also have "filter (\<lambda>c. c \<in> set (?f r) \<and> c \<notin> set ?P) ?C
      = filter (\<lambda>c. c \<in> set ?P' \<and> c \<notin> set ?P) ?C"
    using iff by (intro filter_cong) auto
  also have "filter (\<lambda>c. c \<in> set ?P) ?C @ filter (\<lambda>c. c \<in> set ?P' \<and> c \<notin> set ?P) ?C
      = filter (\<lambda>c. c \<in> set ?P') ?C"
  proof -
    have "filter q ?P @ filter q N = filter q ?P'"
      by (simp only: N filter_append)
    then show ?thesis
      by (simp only: new CP CP')
  qed
  finally show ?case .
qed

lemma harmonized_allKeys:
  "allKeysOf (map (rowEntries (buildGroups (allKeysOf rws))) rws)
     = map fst (filter (\<lambda>g. fst g \<noteq> ''__proto__'') (buildGroups (allKeysOf rws)))"
proof -
  let ?K = "allKeysOf rws"
  let ?G = "buildGroups ?K"
  let ?C = "map fst (filter (\<lambda>g. fst g \<noteq> ''__proto__'') ?G)"
  have "allKeysOf (map (rowEntries ?G) rws)
      = setFrom [] (concat (map (\<lambda>r. map fst (rowEntries ?G r)) rws))"
    by (simp add: allKeysOf_def comp_def)
  also have "\<dots> = filter (\<lambda>c. c \<in> set ?K) ?C"
    by (rule harmonized_allKeys_loop [of rws rws "[]"]) simp
  also have "\<dots> = ?C"
  proof -
    have "map fst ?G = filter (\<lambda>k. k \<in> fst ` set ?G) ?K"
      by (rule buildGroups_order [OF allKeysOf_distinct])
    then have "set (map fst ?G) \<subseteq> set ?K"
      by (metis filter_is_subset)
    then have "\<forall>c \<in> set ?C. c \<in> set ?K" by auto
    then show ?thesis by (simp only: filter_id_conv)
  qed
  finally show ?thesis .
qed

lemma allKeysOf_lack:
  assumes "\<forall>r \<in> set rws. map_of r k = None"
  shows "k \<notin> set (allKeysOf rws)"
  using assms by (auto simp add: allKeysOf_set map_of_eq_None_iff)

lemma rowEntries_lack:
  assumes "k \<notin> K" and "fst ` set groups \<subseteq> K"
  shows "\<forall>out \<in> set (map (rowEntries groups) rws). map_of out k = None"
proof
  fix out assume "out \<in> set (map (rowEntries groups) rws)"
  then obtain r where out: "out = rowEntries groups r" by auto
  have "k \<notin> fst ` set (rowEntries groups r)"
  proof
    assume "k \<in> fst ` set (rowEntries groups r)"
    then have "k \<in> fst ` set groups" by (rule entries_keys)
    with assms show False by blast
  qed
  then show "map_of out k = None"
    by (simp only: out map_of_eq_None_iff not_False_eq_True)
qed

text \<open>
  C5. Harmonising the output of the harmoniser again returns that output: row by row the same
  keys, in the same order, with the same values. Where the first pass fails, so does the
  composition.
\<close>

theorem harmonizeColumnNames_idempotent:
  "(case harmonizeColumnNames rws of
      Inl e \<Rightarrow> Inl e
    | Inr out \<Rightarrow> harmonizeColumnNames out) = harmonizeColumnNames rws"
proof (cases "\<forall>r \<in> set rws. map_of r ''hasOwnProperty'' = None")
  case False
  then obtain r where "r \<in> set rws" "map_of r ''hasOwnProperty'' \<noteq> None" by blast
  then have "harmonizeColumnNames rws = Inl TypeError"
    by (rule harmonizeColumnNames_unsafe)
  then show ?thesis by simp
next
  case safe: True
  show ?thesis
  proof (cases "rws = [] \<or> allKeysOf rws = []")
    case True
    with harmonizeColumnNames_safe [OF safe] have "harmonizeColumnNames rws = Inr rws"
      by simp
    then show ?thesis by simp
  next
    case False
    let ?K = "allKeysOf rws"
    let ?G = "buildGroups ?K"
    let ?C = "map fst (filter (\<lambda>g. fst g \<noteq> ''__proto__'') ?G)"
    let ?out = "map (rowEntries ?G) rws"
    from False harmonizeColumnNames_safe [OF safe]
    have out: "harmonizeColumnNames rws = Inr ?out" by simp
    have keys: "allKeysOf ?out = ?C"
      by (rule harmonized_allKeys)
    have dG: "distinct (map fst ?G)" by (rule buildGroups_distinct)
    then have dC: "distinct ?C"
      by (simp add: distinct_map_filter)
    have CG: "set ?C \<subseteq> fst ` set ?G" by auto
    note inv = buildGroups_inv [of ?K]
    note apart = groups_invD(6) [OF inv]
    have singles: "buildGroups ?C = map (\<lambda>k. (k, [k])) ?C"
    proof (rule buildGroups_apart [OF dC], intro ballI impI)
      fix a b assume "a \<in> set ?C" "b \<in> set ?C" and ne: "a \<noteq> b"
      with CG have "a \<in> fst ` set ?G" "b \<in> fst ` set ?G" by blast+
      with apart ne show "\<not> 75 / 100 \<le> similarityScore a b" by blast
    qed
    have "map fst ?G = filter (\<lambda>k. k \<in> fst ` set ?G) ?K"
      by (rule buildGroups_order [OF allKeysOf_distinct])
    then have "set (map fst ?G) \<subseteq> set ?K"
      by (metis filter_is_subset)
    then have GK: "fst ` set ?G \<subseteq> set ?K" by simp
    have safe_out: "\<forall>x \<in> set ?out. map_of x ''hasOwnProperty'' = None"
      by (rule rowEntries_lack [OF allKeysOf_lack [OF safe] GK])
    have "map (rowEntries (map (\<lambda>k. (k, [k])) ?C)) ?out
        = map (\<lambda>r. rowEntries (map (\<lambda>k. (k, [k])) ?C) (rowEntries ?G r)) rws"
      by (simp add: comp_def)
    also have "\<dots> = ?out"
      by (simp only: rowEntries_singles [OF dG])
    finally have same: "map (rowEntries (map (\<lambda>k. (k, [k])) ?C)) ?out = ?out" .
    have "harmonizeColumnNames ?out = Inr ?out"
    proof (cases "?out = [] \<or> ?C = []")
      case True
      with harmonizeColumnNames_safe [OF safe_out] show ?thesis
        by (simp only: keys if_True)
    next
      case False
      with harmonizeColumnNames_safe [OF safe_out]
      have "harmonizeColumnNames ?out = Inr (map (rowEntries (buildGroups ?C)) ?out)"
        by (simp only: keys if_False)
      then show ?thesis by (simp only: singles same)
    qed
    then show ?thesis by (simp add: out)
  qed
qed

theorem harmonizeColumnNames_idempotent_witness:
  "(case harmonizeColumnNames batch_prices of
      Inl e \<Rightarrow> Inl e
    | Inr out \<Rightarrow> harmonizeColumnNames out) =
     Inr [[(''Cost Price'', Str ''1''), (''Name'', Str ''a'')],
          [(''Cost Price'', Str ''2''), (''SRP Price'', Str ''3'')],
          []]"
  using harmonizeColumnNames_idempotent [of batch_prices]
  by (simp only: batch_prices_harmonized)

end
